theory Spec2Isabelle
  imports Complex_Main "HOL-Library.Word" "HOL-Library.Sublist"
begin

section \<open>JavaScript strings\<close>

text \<open>
  A JavaScript string is a sequence of UTF-16 code units; \<open>.length\<close>, \<open>.slice\<close>,
  \<open>.trim\<close>, \<open>.split\<close> and \<open>.replace\<close> all count and compare code units. A string is
  therefore a list of 16-bit words. \<open>ascii\<close> writes a literal of the source.
\<close>

type_synonym code_unit = "16 word"
type_synonym jsstring = "code_unit list"

definition ascii :: "string \<Rightarrow> jsstring" where
  "ascii s = map of_char s"

definition LF :: code_unit where
  "LF = 0x0A"

definition CR :: code_unit where
  "CR = 0x0D"

text \<open>
  \<open>String.prototype.trim\<close> removes WhiteSpace and LineTerminator code units (ECMAScript
  12.2, 12.3): TAB, LF, VT, FF, CR, SP, NBSP, the Unicode space separators, LS, PS and
  the byte order mark.
\<close>

definition is_ws :: "code_unit \<Rightarrow> bool" where
  "is_ws c \<longleftrightarrow>
     c = 0x09 \<or> c = 0x0A \<or> c = 0x0B \<or> c = 0x0C \<or> c = 0x0D \<or> c = 0x20 \<or> c = 0xA0 \<or>
     c = 0x1680 \<or> (0x2000 \<le> c \<and> c \<le> 0x200A) \<or> c = 0x2028 \<or> c = 0x2029 \<or>
     c = 0x202F \<or> c = 0x205F \<or> c = 0x3000 \<or> c = 0xFEFF"

definition js_trim :: "jsstring \<Rightarrow> jsstring" where
  "js_trim s = rev (dropWhile is_ws (rev (dropWhile is_ws s)))"

text \<open>
  \<open>s.slice(start, end)\<close> (also \<open>Array.prototype.slice\<close>) for integer arguments: a negative
  index counts from the end, both indices are clamped to the length, and an end at or
  before the start gives the empty sequence.
\<close>

definition js_slice :: "'a list \<Rightarrow> int \<Rightarrow> int \<Rightarrow> 'a list" where
  "js_slice s start end =
     (let len = int (length s);
          from = (if start < 0 then max (len + start) 0 else min start len);
          to = (if end < 0 then max (len + end) 0 else min end len)
      in take (nat (to - from)) (drop (nat from) s))"

text \<open>\<open>text.replace(/\r\n/g, "\n")\<close>: every CR LF pair, scanning from the left, becomes LF.\<close>

fun normalize_crlf :: "jsstring \<Rightarrow> jsstring" where
  "normalize_crlf (c # d # rest) =
     (if c = CR \<and> d = LF then LF # normalize_crlf rest
      else c # normalize_crlf (d # rest))"
| "normalize_crlf cs = cs"

text \<open>
  \<open>normalized.split(/\n\n+/)\<close>: the separators are the maximal runs of two or more LF,
  found from the left; the pieces between them are returned, the empty ones included.
  \<open>cur\<close> is the piece being read.
\<close>

function split_blank :: "jsstring \<Rightarrow> jsstring \<Rightarrow> jsstring list" where
  "split_blank cur [] = [cur]"
| "split_blank cur (c # cs) =
     (if c = LF \<and> cs \<noteq> [] \<and> hd cs = LF
      then cur # split_blank [] (dropWhile (\<lambda>d. d = LF) cs)
      else split_blank (cur @ [c]) cs)"
  by pat_completeness auto
termination
  by (relation "measure (\<lambda>(cur, s). length s)")
     (auto simp: less_Suc_eq_le length_dropWhile_le)

section \<open>The chunker\<close>

text \<open>
  The two settings of \<open>chunkText\<close>, read from the process environment on every call:
  \<open>Number(process.env.RAG_CHUNK_MAX_CHARS ?? 800)\<close> and
  \<open>Number(process.env.RAG_CHUNK_OVERLAP_CHARS ?? 120)\<close>. A variable that is set holds
  an integer literal (of either sign); \<open>None\<close> is an unset variable.
\<close>

record chunk_env =
  RAG_CHUNK_MAX_CHARS :: "int option"
  RAG_CHUNK_OVERLAP_CHARS :: "int option"

definition maxLen_of :: "chunk_env \<Rightarrow> int" where
  "maxLen_of env = (case RAG_CHUNK_MAX_CHARS env of None \<Rightarrow> 800 | Some n \<Rightarrow> n)"

definition overlap_of :: "chunk_env \<Rightarrow> int" where
  "overlap_of env = (case RAG_CHUNK_OVERLAP_CHARS env of None \<Rightarrow> 120 | Some n \<Rightarrow> n)"

text \<open>
  The first statement of \<open>chunkText\<close>: normalise the line endings, split at blank lines,
  trim every piece and drop the empty ones.
\<close>

definition paragraphs :: "jsstring \<Rightarrow> jsstring list" where
  "paragraphs text =
     filter (\<lambda>s. length s > 0) (map js_trim (split_blank [] (normalize_crlf text)))"

text \<open>
  The \<open>while (start < part.length)\<close> loop of \<open>chunkText\<close>, entered with \<open>start = 0\<close>.
  Nothing in the source bounds its iterations, so the model is a partial function:
  \<open>None\<close> is a loop that never exits.
\<close>

partial_function (option) window_loop ::
  "int \<Rightarrow> int \<Rightarrow> jsstring \<Rightarrow> int \<Rightarrow> jsstring list \<Rightarrow> jsstring list option" where
  "window_loop maxLen overlap part start chunks =
     (if start < int (length part) then
        (if min (int (length part)) (start + maxLen) \<ge> int (length part)
         then Some (chunks @ [js_slice part start (min (int (length part)) (start + maxLen))])
         else window_loop maxLen overlap part
                (max 0 (min (int (length part)) (start + maxLen) - overlap))
                (chunks @ [js_slice part start (min (int (length part)) (start + maxLen))]))
      else Some chunks)"

text \<open>The \<open>for (const part of parts)\<close> loop; \<open>chunks\<close> is the array being filled.\<close>

fun chunk_parts :: "int \<Rightarrow> int \<Rightarrow> jsstring list \<Rightarrow> jsstring list \<Rightarrow> jsstring list option" where
  "chunk_parts maxLen overlap [] chunks = Some chunks"
| "chunk_parts maxLen overlap (part # parts) chunks =
     (if int (length part) \<le> maxLen then chunk_parts maxLen overlap parts (chunks @ [part])
      else (case window_loop maxLen overlap part 0 chunks of
              None \<Rightarrow> None
            | Some chunks' \<Rightarrow> chunk_parts maxLen overlap parts chunks'))"

definition chunkText :: "chunk_env \<Rightarrow> jsstring \<Rightarrow> jsstring list option" where
  "chunkText env text = chunk_parts (maxLen_of env) (overlap_of env) (paragraphs text) []"

declare window_loop.simps [code]

text \<open>The process environment with neither chunking variable set: 800 and 120 apply.\<close>

definition default_chunk_env :: chunk_env where
  "default_chunk_env = \<lparr>RAG_CHUNK_MAX_CHARS = None, RAG_CHUNK_OVERLAP_CHARS = None\<rparr>"

text \<open>
  A property of texts used to state results, not part of the program: the text has two
  adjacent LF, that is, a separator of \<open>split(/\n\n+/)\<close>.
\<close>

fun has_blank_line :: "jsstring \<Rightarrow> bool" where
  "has_blank_line (c # d # rest) = ((c = LF \<and> d = LF) \<or> has_blank_line (d # rest))"
| "has_blank_line cs = False"

text \<open>
  Two more properties used to state results. \<open>sliding_windows\<close>: the chunks \<open>ws\<close> are the
  windows of \<open>part\<close> of width \<open>maxLen\<close> that start every \<open>maxLen - overlap\<close> code units;
  every window but the last is full and ends with the \<open>overlap\<close> code units its successor
  starts with; the last window reaches the end of \<open>part\<close>. \<open>chunks_of_part\<close>: a paragraph
  within the maximum is its own single chunk, a longer one is cut into sliding windows.
\<close>

definition sliding_windows :: "int \<Rightarrow> int \<Rightarrow> jsstring \<Rightarrow> jsstring list \<Rightarrow> bool" where
  "sliding_windows maxLen overlap part ws \<longleftrightarrow>
     ws \<noteq> [] \<and>
     (\<forall>i<length ws. ws ! i = take (nat maxLen) (drop (i * nat (maxLen - overlap)) part)) \<and>
     (\<forall>i. Suc i < length ws \<longrightarrow>
        int (length (ws ! i)) = maxLen \<and>
        drop (nat (maxLen - overlap)) (ws ! i) = take (nat overlap) (ws ! Suc i)) \<and>
     length part \<le> (length ws - 1) * nat (maxLen - overlap) + nat maxLen"

definition chunks_of_part :: "int \<Rightarrow> int \<Rightarrow> jsstring \<Rightarrow> jsstring list \<Rightarrow> bool" where
  "chunks_of_part maxLen overlap part cs \<longleftrightarrow>
     (if int (length part) \<le> maxLen then cs = [part] else sliding_windows maxLen overlap part cs)"

section \<open>JavaScript numbers and JSON values\<close>

text \<open>
  A JavaScript number is an IEEE 754 double: NaN, an infinity, or a finite double, which
  is a real number. \<open>-0\<close> and \<open>+0\<close> are both \<open>Fin 0\<close>: they are equal for \<open>===\<close>, and the
  one operation that tells them apart, a division by zero, is never reached with \<open>-0\<close>
  (\<open>cosineSim\<close> divides by a product of square roots, and not when it is zero).
  Comparisons of doubles are exact, so they are the comparisons of these reals.
\<close>

datatype jsnum = NaN | NegInf | Fin real | PosInf

text \<open>\<open>a < b\<close> and \<open>a >= b\<close> on numbers: false as soon as one side is NaN.\<close>

fun js_lt :: "jsnum \<Rightarrow> jsnum \<Rightarrow> bool" where
  "js_lt NaN b = False"
| "js_lt a NaN = False"
| "js_lt a NegInf = False"
| "js_lt NegInf b = True"
| "js_lt PosInf b = False"
| "js_lt a PosInf = True"
| "js_lt (Fin x) (Fin y) = (x < y)"

fun js_ge :: "jsnum \<Rightarrow> jsnum \<Rightarrow> bool" where
  "js_ge NaN b = False"
| "js_ge a NaN = False"
| "js_ge a b = (\<not> js_lt a b)"

text \<open>
  \<open>a - b\<close>. The difference of two finite doubles is rounded, but its sign is the sign of
  the exact difference (gradual underflow: it is zero only for equal operands), and the
  sort below reads nothing but the sign. Infinities of the same sign give NaN.
\<close>

fun js_sub :: "jsnum \<Rightarrow> jsnum \<Rightarrow> jsnum" where
  "js_sub NaN b = NaN"
| "js_sub a NaN = NaN"
| "js_sub PosInf PosInf = NaN"
| "js_sub NegInf NegInf = NaN"
| "js_sub PosInf b = PosInf"
| "js_sub NegInf b = NegInf"
| "js_sub a PosInf = NegInf"
| "js_sub a NegInf = PosInf"
| "js_sub (Fin x) (Fin y) = Fin (x - y)"

text \<open>
  Rounding to the nearest double, ties to the even significand. The doubles around a real
  \<open>x\<close> with \<open>2^e \<le> |x| < 2^(e+1)\<close> are the multiples of \<open>2^(e-52)\<close>, where \<open>e\<close> is not taken
  below \<open>-1022\<close> (from there down the doubles are subnormal, \<open>2^(-1074)\<close> apart). A rounded
  value of magnitude \<open>2^1024\<close> or more is an infinity (overflow); a value that rounds to
  zero is zero (underflow).
\<close>

definition round_even :: "real \<Rightarrow> int" where
  "round_even x =
     (if x - of_int \<lfloor>x\<rfloor> < 1 / 2 then \<lfloor>x\<rfloor>
      else if 1 / 2 < x - of_int \<lfloor>x\<rfloor> then \<lfloor>x\<rfloor> + 1
      else if even \<lfloor>x\<rfloor> then \<lfloor>x\<rfloor> else \<lfloor>x\<rfloor> + 1)"

definition ulp :: "real \<Rightarrow> real" where
  "ulp x = 2 powr of_int (max \<lfloor>log 2 \<bar>x\<bar>\<rfloor> (- 1022) - 52)"

definition round_double :: "real \<Rightarrow> jsnum" where
  "round_double x =
     (if x = 0 then Fin 0
      else if 2 ^ 1024 \<le> \<bar>of_int (round_even (x / ulp x)) * ulp x\<bar>
      then (if 0 < x then PosInf else NegInf)
      else Fin (of_int (round_even (x / ulp x)) * ulp x))"

text \<open>
  \<open>a + b\<close>, \<open>a * b\<close>, \<open>a / b\<close> and \<open>Math.sqrt(a)\<close>: the exact result, rounded. NaN spreads;
  \<open>Infinity - Infinity\<close>, \<open>Infinity * 0\<close>, \<open>0 / 0\<close> and \<open>Infinity / Infinity\<close> and the square
  root of a negative number are NaN.
\<close>

fun js_add :: "jsnum \<Rightarrow> jsnum \<Rightarrow> jsnum" where
  "js_add NaN b = NaN"
| "js_add a NaN = NaN"
| "js_add PosInf NegInf = NaN"
| "js_add NegInf PosInf = NaN"
| "js_add PosInf b = PosInf"
| "js_add NegInf b = NegInf"
| "js_add a PosInf = PosInf"
| "js_add a NegInf = NegInf"
| "js_add (Fin x) (Fin y) = round_double (x + y)"

fun js_mul :: "jsnum \<Rightarrow> jsnum \<Rightarrow> jsnum" where
  "js_mul NaN b = NaN"
| "js_mul a NaN = NaN"
| "js_mul (Fin x) (Fin y) = round_double (x * y)"
| "js_mul a b =
     (if a = Fin 0 \<or> b = Fin 0 then NaN
      else if js_lt a (Fin 0) = js_lt b (Fin 0) then PosInf else NegInf)"

fun js_div :: "jsnum \<Rightarrow> jsnum \<Rightarrow> jsnum" where
  "js_div NaN b = NaN"
| "js_div a NaN = NaN"
| "js_div (Fin x) (Fin y) =
     (if y = 0 then (if x = 0 then NaN else if 0 < x then PosInf else NegInf)
      else round_double (x / y))"
| "js_div (Fin x) b = Fin 0"
| "js_div a (Fin y) = (if js_lt a (Fin 0) = (y < 0) then PosInf else NegInf)"
| "js_div a b = NaN"

fun js_sqrt :: "jsnum \<Rightarrow> jsnum" where
  "js_sqrt NaN = NaN"
| "js_sqrt NegInf = NaN"
| "js_sqrt PosInf = PosInf"
| "js_sqrt (Fin x) = (if x < 0 then NaN else round_double (sqrt x))"

text \<open>
  A value as \<open>JSON.parse\<close>, \<open>express.json()\<close> and \<open>res.json()\<close> deliver it. An object is
  the list of its own properties.
\<close>

datatype json =
    JNull
  | JBool bool
  | JNum jsnum
  | JStr jsstring
  | JArr "json list"
  | JObj "(jsstring \<times> json) list"

text \<open>
  \<open>v?.key\<close> for the keys this program reads (\<open>choices\<close>, \<open>message\<close>, \<open>content\<close>, \<open>data\<close>,
  \<open>embedding\<close> and the fields of the request schemas): only an object has them; on
  \<open>null\<close>, a number, a boolean, a string or an array the result is \<open>undefined\<close>.
\<close>

fun get_prop :: "string \<Rightarrow> json \<Rightarrow> json option" where
  "get_prop key (JObj kvs) = map_of kvs (ascii key)"
| "get_prop key v = None"

text \<open>\<open>v?.[0]\<close>: the first element of an array, the first code unit of a string, the
  property \<open>"0"\<close> of an object.\<close>

fun index0 :: "json \<Rightarrow> json option" where
  "index0 (JArr (x # xs)) = Some x"
| "index0 (JStr (c # cs)) = Some (JStr [c])"
| "index0 (JObj kvs) = map_of kvs (ascii ''0'')"
| "index0 v = None"

text \<open>The decimal digits of an integer, as a template literal prints it.\<close>

fun show_nat :: "nat \<Rightarrow> jsstring" where
  "show_nat n = (if n < 10 then [of_nat (48 + n)] else show_nat (n div 10) @ [of_nat (48 + n mod 10)])"

definition show_int :: "int \<Rightarrow> jsstring" where
  "show_int i = (if i < 0 then ascii ''-'' @ show_nat (nat (- i)) else show_nat (nat i))"

text \<open>\<open>xs.join(sep)\<close> on an array of strings.\<close>

fun js_join :: "jsstring \<Rightarrow> jsstring list \<Rightarrow> jsstring" where
  "js_join sep [] = []"
| "js_join sep [x] = x"
| "js_join sep (x # y # ys) = x @ sep @ js_join sep (y # ys)"

text \<open>
  \<open>Array.prototype.sort(cmp)\<close> as ECMAScript specifies it: the sort is stable, \<open>a\<close> goes
  before \<open>b\<close> when \<open>cmp(a, b) < 0\<close>, and a comparator value of NaN counts as 0. The
  elements are inserted from the left, each behind everything it does not precede.
\<close>

fun js_insert :: "('a \<Rightarrow> 'a \<Rightarrow> jsnum) \<Rightarrow> 'a \<Rightarrow> 'a list \<Rightarrow> 'a list" where
  "js_insert cmp x [] = [x]"
| "js_insert cmp x (y # ys) =
     (if js_lt (cmp x y) (Fin 0) then x # y # ys else y # js_insert cmp x ys)"

definition js_sort :: "('a \<Rightarrow> 'a \<Rightarrow> jsnum) \<Rightarrow> 'a list \<Rightarrow> 'a list" where
  "js_sort cmp xs = foldl (\<lambda>sorted x. js_insert cmp x sorted) [] xs"

section \<open>The request schemas\<close>

record message =
  role :: jsstring
  content :: jsstring

record chat_request =
  messages :: "message list"
  temperature :: "real option"
  max_tokens :: "int option"
  use_rag :: "bool option"
  top_k :: "int option"

record ingest_request =
  ingest_source :: jsstring
  ingest_text :: jsstring

text \<open>
  \<open>z.object({role: z.enum(["user", "assistant"]), content: z.string().min(1)})\<close>; keys
  the schema does not name are dropped.
\<close>

definition parse_message :: "json \<Rightarrow> message option" where
  "parse_message v =
     (case (get_prop ''role'' v, get_prop ''content'' v) of
        (Some (JStr r), Some (JStr c)) \<Rightarrow>
          if (r = ascii ''user'' \<or> r = ascii ''assistant'') \<and> 1 \<le> length c
          then Some \<lparr>role = r, content = c\<rparr> else None
      | _ \<Rightarrow> None)"

text \<open>\<open>z.array(...)\<close> of messages: no minimum length is asked for.\<close>

definition parse_messages :: "json option \<Rightarrow> message list option" where
  "parse_messages v =
     (case v of Some (JArr ms) \<Rightarrow> those (map parse_message ms) | _ \<Rightarrow> None)"

text \<open>
  An \<open>.optional()\<close> field: an absent key is accepted and gives \<open>undefined\<close>; a present key
  has to pass the check (\<open>null\<close> does not).
\<close>

definition optional_field :: "(json \<Rightarrow> 'a option) \<Rightarrow> json option \<Rightarrow> 'a option option" where
  "optional_field check v =
     (case v of None \<Rightarrow> Some None
      | Some x \<Rightarrow> (case check x of None \<Rightarrow> None | Some y \<Rightarrow> Some (Some y)))"

text \<open>\<open>z.number().min(lo).max(hi)\<close>: NaN is no number for zod; an infinity breaks a bound.\<close>

definition number_between :: "real \<Rightarrow> real \<Rightarrow> json \<Rightarrow> real option" where
  "number_between lo hi v =
     (case v of JNum (Fin x) \<Rightarrow> if lo \<le> x \<and> x \<le> hi then Some x else None | _ \<Rightarrow> None)"

text \<open>\<open>z.number().int().positive().max(hi)\<close>.\<close>

definition positive_int_upto :: "int \<Rightarrow> json \<Rightarrow> int option" where
  "positive_int_upto hi v =
     (case v of
        JNum (Fin x) \<Rightarrow>
          if x = of_int \<lfloor>x\<rfloor> \<and> 0 < x \<and> x \<le> of_int hi then Some \<lfloor>x\<rfloor> else None
      | _ \<Rightarrow> None)"

definition boolean :: "json \<Rightarrow> bool option" where
  "boolean v = (case v of JBool b \<Rightarrow> Some b | _ \<Rightarrow> None)"

text \<open>\<open>ChatRequestSchema.safeParse(req.body)\<close>; \<open>None\<close> is \<open>success: false\<close>.\<close>

definition ChatRequestSchema :: "json \<Rightarrow> chat_request option" where
  "ChatRequestSchema body =
     (case body of
        JObj kvs \<Rightarrow>
          (case (parse_messages (get_prop ''messages'' body),
                 optional_field (number_between 0 2) (get_prop ''temperature'' body),
                 optional_field (positive_int_upto 8192) (get_prop ''max_tokens'' body),
                 optional_field boolean (get_prop ''use_rag'' body),
                 optional_field (positive_int_upto 10) (get_prop ''top_k'' body)) of
             (Some ms, Some t, Some mt, Some ur, Some k) \<Rightarrow>
               Some \<lparr>messages = ms, temperature = t, max_tokens = mt, use_rag = ur, top_k = k\<rparr>
           | _ \<Rightarrow> None)
      | _ \<Rightarrow> None)"

text \<open>\<open>RagIngestSchema.safeParse(req.body)\<close>: two non-empty strings.\<close>

definition RagIngestSchema :: "json \<Rightarrow> ingest_request option" where
  "RagIngestSchema body =
     (case (get_prop ''source'' body, get_prop ''text'' body) of
        (Some (JStr s), Some (JStr t)) \<Rightarrow>
          if 1 \<le> length s \<and> 1 \<le> length t
          then Some \<lparr>ingest_source = s, ingest_text = t\<rparr> else None
      | _ \<Rightarrow> None)"

section \<open>The outside world\<close>

text \<open>
  What a \<open>fetch\<close> can come to. \<open>Fetch_failed\<close> is a rejected promise (no connection);
  \<open>Fetch_aborted\<close> is the rejection with an \<open>AbortError\<close> that follows
  \<open>controller.abort()\<close>; \<open>Fetch_response\<close> is a response of any status. The body is
  given as \<open>res.text()\<close> reads it and as \<open>res.json()\<close> reads it, \<open>None\<close> there being a
  body that is no JSON (the promise rejects with a \<open>SyntaxError\<close>).
\<close>

record http_response =
  http_status :: int
  body_text :: jsstring
  body_json :: "json option"

definition res_ok :: "http_response \<Rightarrow> bool" where
  "res_ok res \<longleftrightarrow> 200 \<le> http_status res \<and> http_status res \<le> 299"

datatype fetch_result = Fetch_failed | Fetch_aborted | Fetch_response http_response

text \<open>
  What the completion provider does with a request, on a clock of milliseconds that
  starts when the \<open>fetch\<close> is made: it never answers; or the connection fails at \<open>t\<close>; or
  the response headers arrive at \<open>t1\<close>, which is when the promise of \<open>fetch\<close> resolves, and
  the body has been read at \<open>t2\<close>.
\<close>

datatype exchange = No_answer | Refused nat | Answered nat nat http_response

text \<open>
  The statements of the ingest transaction that SQLite may refuse (a full disk, a
  database locked by another process): \<open>BEGIN\<close>, the \<open>n\<close>-th \<open>INSERT\<close>, and \<open>COMMIT\<close>.
\<close>

datatype sqlite_step = Sqlite_begin | Sqlite_insert nat | Sqlite_commit

datatype js_error =
  Js_Error jsstring | Fetch_TypeError | Fetch_AbortError | Json_SyntaxError | SqliteError

record completion_request =
  cr_model :: jsstring
  cr_temperature :: "real option"
  cr_max_tokens :: "int option"
  cr_messages :: "message list"

text \<open>The outbound calls of one request, in the order they are made.\<close>

datatype call = Embedding_call jsstring | Completion_call completion_request

text \<open>A row of the table \<open>rag_chunks\<close>: the five values of the INSERT, then the row id.\<close>

record row_values =
  row_source :: jsstring
  row_chunk_index :: int
  row_content :: jsstring
  row_embedding_json :: jsstring
  row_created_at :: int

record stored_row = row_values +
  row_id :: int

text \<open>The database: the table in row-id order and the counter that AUTOINCREMENT keeps.\<close>

record store =
  rag_chunks :: "stored_row list"
  sqlite_sequence :: int

text \<open>
  Everything a request handler reads from outside: the process environment, the request
  id and the clock, the two providers, the storage, and the library code that is not
  modelled further. The \<open>n\<close>-th embedding call of a request, on its input, comes to
  \<open>embedding_fetch n input\<close>. \<open>ToNumber_object\<close> is the number that \<open>*\<close> makes of a string,
  an array or an object (through its string form and the number grammar of ECMAScript).
\<close>

record world =
  chunk_settings :: chunk_env
  DEEPSEEK_API_KEY :: "jsstring option"
  DEEPSEEK_MODEL :: "jsstring option"
  DEEPSEEK_TIMEOUT_MS :: "int option"
  SYSTEM_PROMPT :: "jsstring option"
  RAG_TOP_K :: "int option"
  randomUUID :: jsstring
  Date_now :: int
  embedding_fetch :: "nat \<Rightarrow> jsstring \<Rightarrow> fetch_result"
  completion_exchange :: "completion_request \<Rightarrow> exchange"
  sqlite_throws :: "sqlite_step \<Rightarrow> bool"
  ToNumber_object :: "json \<Rightarrow> jsnum"
  JSON_parse :: "jsstring \<Rightarrow> json option"
  JSON_stringify :: "json \<Rightarrow> jsstring"

section \<open>Cosine similarity\<close>

text \<open>
  \<open>a[i]\<close> on an array, \<open>undefined\<close> past its end; and the number that \<open>a[i] * b[i]\<close> makes
  of an operand: a number is itself, \<open>null\<close> is 0, \<open>true\<close> is 1, \<open>false\<close> is 0 and
  \<open>undefined\<close> is NaN.
\<close>

definition at_index :: "json list \<Rightarrow> nat \<Rightarrow> json option" where
  "at_index xs i = (if i < length xs then Some (xs ! i) else None)"

definition ToNumber :: "world \<Rightarrow> json option \<Rightarrow> jsnum" where
  "ToNumber w v =
     (case v of
        None \<Rightarrow> NaN
      | Some (JNum x) \<Rightarrow> x
      | Some JNull \<Rightarrow> Fin 0
      | Some (JBool b) \<Rightarrow> Fin (if b then 1 else 0)
      | Some u \<Rightarrow> ToNumber_object w u)"

text \<open>\<open>let s = 0; for (let i = 0; i < a.length; i++) s += a[i] * b[i]; return s\<close>.\<close>

definition dot :: "world \<Rightarrow> json list \<Rightarrow> json list \<Rightarrow> jsnum" where
  "dot w a b =
     foldl (\<lambda>s i. js_add s (js_mul (ToNumber w (at_index a i)) (ToNumber w (at_index b i))))
       (Fin 0) [0..<length a]"

text \<open>\<open>Math.sqrt(dot(a, a))\<close>.\<close>

definition norm_js :: "world \<Rightarrow> json list \<Rightarrow> jsnum" where
  "norm_js w a = js_sqrt (dot w a a)"

text \<open>
  \<open>cosineSim\<close>: the guard \<open>denom === 0\<close> holds for a zero of either sign and for nothing
  else (not for NaN).
\<close>

definition cosineSim :: "world \<Rightarrow> json list \<Rightarrow> json list \<Rightarrow> jsnum" where
  "cosineSim w a b =
     (let denom = js_mul (norm_js w a) (norm_js w b)
      in if denom = Fin 0 then Fin 0 else js_div (dot w a b) denom)"

section \<open>Replies\<close>

record citation =
  cit_id :: int
  cit_source :: jsstring
  cit_chunkIndex :: int
  cit_score :: jsnum

text \<open>
  The JSON bodies the handlers send: \<open>{code, message, requestId}\<close>,
  \<open>{requestId, chunks}\<close> and \<open>{message, requestId, model, latencyMs, citations}\<close> (the
  latency, a difference of two clock readings, is left out).
\<close>

datatype reply_body =
    Error_reply jsstring jsstring jsstring
  | Ingest_reply jsstring nat
  | Chat_reply jsstring jsstring jsstring "citation list"

record http_reply =
  status_code :: nat
  reply :: reply_body

definition bad_request :: "world \<Rightarrow> http_reply" where
  "bad_request w =
     \<lparr>status_code = 400,
      reply = Error_reply (ascii ''BAD_REQUEST'') (ascii ''Invalid request body'') (randomUUID w)\<rparr>"

definition missing_api_key :: "world \<Rightarrow> http_reply" where
  "missing_api_key w =
     \<lparr>status_code = 500,
      reply = Error_reply (ascii ''MISSING_API_KEY'') (ascii ''Missing DEEPSEEK_API_KEY'')
                (randomUUID w)\<rparr>"

text \<open>The reply of the \<open>catch (err)\<close> block of both handlers, whatever was thrown.\<close>

definition internal_error :: "world \<Rightarrow> http_reply" where
  "internal_error w =
     \<lparr>status_code = 500,
      reply = Error_reply (ascii ''INTERNAL_ERROR'') (ascii ''Internal server error'')
                (randomUUID w)\<rparr>"

definition upstream_error :: "world \<Rightarrow> http_response \<Rightarrow> http_reply" where
  "upstream_error w res =
     \<lparr>status_code = 502,
      reply = Error_reply (ascii ''UPSTREAM_ERROR'')
                (if body_text res \<noteq> [] then body_text res
                 else ascii ''Upstream HTTP '' @ show_int (http_status res))
                (randomUUID w)\<rparr>"

definition bad_upstream_response :: "world \<Rightarrow> http_reply" where
  "bad_upstream_response w =
     \<lparr>status_code = 502,
      reply = Error_reply (ascii ''BAD_UPSTREAM_RESPONSE'')
                (ascii ''Upstream returned an invalid response'') (randomUUID w)\<rparr>"

section \<open>The API key\<close>

text \<open>
  \<open>process.env.DEEPSEEK_API_KEY?.trim().replace(/^['"]|['"]$/g, "")\<close>: one quote is
  removed at the start and one at the end. \<open>None\<close> is the falsy result, an unset
  variable or an empty string.
\<close>

definition is_quote :: "code_unit \<Rightarrow> bool" where
  "is_quote c \<longleftrightarrow> c = 0x27 \<or> c = 0x22"

definition strip_quotes :: "jsstring \<Rightarrow> jsstring" where
  "strip_quotes s =
     (let s1 = (case s of [] \<Rightarrow> [] | c # cs \<Rightarrow> if is_quote c then cs else s)
      in if s1 \<noteq> [] \<and> is_quote (last s1) then butlast s1 else s1)"

definition apiKey :: "world \<Rightarrow> jsstring option" where
  "apiKey w =
     (case DEEPSEEK_API_KEY w of
        None \<Rightarrow> None
      | Some raw \<Rightarrow>
          if strip_quotes (js_trim raw) = [] then None else Some (strip_quotes (js_trim raw)))"

section \<open>The embedding client\<close>

text \<open>
  \<open>embedText\<close>, called as the \<open>n\<close>-th embedding call of the request: it throws on a
  failed fetch, on a status outside 200 to 299, on a body that is no JSON, and when
  \<open>data?.data?.[0]?.embedding\<close> is not a non-empty array starting with a number.
\<close>

definition embedText :: "world \<Rightarrow> nat \<Rightarrow> jsstring \<Rightarrow> js_error + json list" where
  "embedText w n input =
     (case embedding_fetch w n input of
        Fetch_failed \<Rightarrow> Inl Fetch_TypeError
      | Fetch_aborted \<Rightarrow> Inl Fetch_AbortError
      | Fetch_response res \<Rightarrow>
          if \<not> res_ok res then
            Inl (Js_Error (if body_text res \<noteq> [] then body_text res
                           else ascii ''Embedding upstream HTTP '' @ show_int (http_status res)))
          else
            (case body_json res of
               None \<Rightarrow> Inl Json_SyntaxError
             | Some data \<Rightarrow>
                 (case Option.bind (Option.bind (get_prop ''data'' data) index0)
                         (get_prop ''embedding'') of
                    Some (JArr (JNum x # xs)) \<Rightarrow> Inr (JNum x # xs)
                  | _ \<Rightarrow> Inl (Js_Error (ascii ''Embedding upstream returned an invalid response'')))))"

section \<open>Ingest\<close>

text \<open>
  The loop \<open>for (let i = 0; i < chunks.length; i++)\<close> of the ingest handler: one
  embedding call per chunk, in order; the first one that throws ends the loop. \<open>todo\<close> are
  the chunks from index \<open>i\<close> on, \<open>done\<close> the array \<open>rows\<close> so far.
\<close>

fun embed_rows ::
  "world \<Rightarrow> ingest_request \<Rightarrow> nat \<Rightarrow> jsstring list \<Rightarrow> row_values list \<Rightarrow> call list
   \<Rightarrow> (js_error + row_values list) \<times> call list" where
  "embed_rows w req i [] done calls = (Inr done, calls)"
| "embed_rows w req i (chunk # todo) done calls =
     (case embedText w i chunk of
        Inl err \<Rightarrow> (Inl err, calls @ [Embedding_call chunk])
      | Inr embedding \<Rightarrow>
          embed_rows w req (Suc i) todo
            (done @ [\<lparr>row_source = ingest_source req, row_chunk_index = int i,
                       row_content = chunk,
                       row_embedding_json = JSON_stringify w (JArr embedding),
                       row_created_at = Date_now w\<rparr>])
            (calls @ [Embedding_call chunk]))"

text \<open>
  A string bound to a TEXT column is stored as UTF-8, and a surrogate code unit that is
  not half of a pair has no UTF-8 form: it is stored as U+FFFD, and that is what a later
  SELECT reads. A well-formed string is stored as it is. (A window of \<open>chunkText\<close> is cut
  at code-unit offsets, so it can begin or end inside a pair.)
\<close>

definition is_high_surrogate :: "code_unit \<Rightarrow> bool" where
  "is_high_surrogate c \<longleftrightarrow> 0xD800 \<le> c \<and> c \<le> 0xDBFF"

definition is_low_surrogate :: "code_unit \<Rightarrow> bool" where
  "is_low_surrogate c \<longleftrightarrow> 0xDC00 \<le> c \<and> c \<le> 0xDFFF"

fun sqlite_text :: "jsstring \<Rightarrow> jsstring" where
  "sqlite_text [] = []"
| "sqlite_text [c] = (if is_high_surrogate c \<or> is_low_surrogate c then [0xFFFD] else [c])"
| "sqlite_text (c # d # s) =
     (if is_high_surrogate c \<and> is_low_surrogate d then c # d # sqlite_text s
      else if is_high_surrogate c \<or> is_low_surrogate c then 0xFFFD # sqlite_text (d # s)
      else c # sqlite_text (d # s))"

text \<open>
  \<open>insertStmt.run(...)\<close>, as the \<open>n\<close>-th insert of the transaction: it throws when SQLite
  refuses the statement; otherwise the row is stored and gets the next row id.
\<close>

definition insertStmt_run :: "world \<Rightarrow> nat \<Rightarrow> store \<Rightarrow> row_values \<Rightarrow> js_error + store" where
  "insertStmt_run w n db r =
     (if sqlite_throws w (Sqlite_insert n) then Inl SqliteError
      else Inr
        \<lparr>rag_chunks = rag_chunks db @
           [\<lparr>row_source = sqlite_text (row_source r), row_chunk_index = row_chunk_index r,
             row_content = sqlite_text (row_content r),
             row_embedding_json = sqlite_text (row_embedding_json r),
             row_created_at = row_created_at r, row_id = sqlite_sequence db + 1\<rparr>],
         sqlite_sequence = sqlite_sequence db + 1\<rparr>)"

text \<open>
  The function given to \<open>db.transaction\<close>, \<open>(rows) => { let count = 0; for (const row of
  rows) { insertStmt.run(...); count++; } return count; }\<close>: what it returns or throws, and
  the database as it leaves it. At a throw the rows inserted so far are there.
\<close>

fun insert_rows ::
  "world \<Rightarrow> nat \<Rightarrow> store \<Rightarrow> row_values list \<Rightarrow> nat \<Rightarrow> (js_error + nat) \<times> store" where
  "insert_rows w n db [] count = (Inr count, db)"
| "insert_rows w n db (r # rs) count =
     (case insertStmt_run w n db r of
        Inl err \<Rightarrow> (Inl err, db)
      | Inr db' \<Rightarrow> insert_rows w (Suc n) db' rs (count + 1))"

text \<open>
  \<open>db.transaction(fn)\<close> of better-sqlite3: \<open>BEGIN\<close>, the function, \<open>COMMIT\<close>. When the
  function or the commit throws, the transaction is rolled back, which restores the
  database of before \<open>BEGIN\<close>, and the error is thrown on.
\<close>

definition db_transaction ::
  "world \<Rightarrow> (store \<Rightarrow> (js_error + 'a) \<times> store) \<Rightarrow> store \<Rightarrow> (js_error + 'a) \<times> store" where
  "db_transaction w fn db =
     (if sqlite_throws w Sqlite_begin then (Inl SqliteError, db)
      else
        (case fn db of
           (Inl err, db') \<Rightarrow> (Inl err, db)
         | (Inr v, db') \<Rightarrow>
             if sqlite_throws w Sqlite_commit then (Inl SqliteError, db) else (Inr v, db')))"

text \<open>\<open>const inserted = db.transaction((rows) => ...)\<close>, called as \<open>inserted(rows)\<close>.\<close>

definition inserted :: "world \<Rightarrow> store \<Rightarrow> row_values list \<Rightarrow> (js_error + nat) \<times> store" where
  "inserted w db rows = db_transaction w (\<lambda>db. insert_rows w 0 db rows 0) db"

text \<open>
  The handler of \<open>POST /rag/ingest\<close>: the reply, the outbound calls and the database
  afterwards. The reply \<open>None\<close> is a run that does not come back from \<open>chunkText\<close>: its
  array of chunks grows until the memory is used up, which ends the process (or, where
  the engine throws a \<open>RangeError\<close> for the array, ends in the \<open>catch\<close> block). Nothing has
  been written by then.
\<close>

definition ingest_handler ::
  "world \<Rightarrow> store \<Rightarrow> json \<Rightarrow> http_reply option \<times> call list \<times> store" where
  "ingest_handler w db body =
     (case RagIngestSchema body of
        None \<Rightarrow> (Some (bad_request w), [], db)
      | Some req \<Rightarrow>
          (case apiKey w of
             None \<Rightarrow> (Some (missing_api_key w), [], db)
           | Some key \<Rightarrow>
               (case chunkText (chunk_settings w) (ingest_text req) of
                  None \<Rightarrow> (None, [], db)
                | Some chunks \<Rightarrow>
                    (case embed_rows w req 0 chunks [] [] of
                       (Inl err, calls) \<Rightarrow> (Some (internal_error w), calls, db)
                     | (Inr rows, calls) \<Rightarrow>
                         (case inserted w db rows of
                            (Inl err, db') \<Rightarrow> (Some (internal_error w), calls, db')
                          | (Inr count, db') \<Rightarrow>
                              (Some \<lparr>status_code = 200,
                                     reply = Ingest_reply (randomUUID w) count\<rparr>,
                               calls, db'))))))"

section \<open>Retrieval\<close>

record scored =
  scored_row :: stored_row
  score :: jsnum

text \<open>
  The \<open>.map\<close> of the retrieval step: a row whose \<open>embedding_json\<close> does not parse, or
  parses to something that is no array, scores -1.
\<close>

definition score_row :: "world \<Rightarrow> json list \<Rightarrow> stored_row \<Rightarrow> scored" where
  "score_row w queryEmbedding r =
     \<lparr>scored_row = r,
      score = (case JSON_parse w (row_embedding_json r) of
                 Some (JArr vec) \<Rightarrow> cosineSim w queryEmbedding vec
               | _ \<Rightarrow> Fin (- 1))\<rparr>"

text \<open>\<open>rows.map(...).filter((x) => x.score >= 0).sort((a, b) => b.score - a.score).slice(0, topK)\<close>.\<close>

definition retrieve :: "world \<Rightarrow> json list \<Rightarrow> stored_row list \<Rightarrow> int \<Rightarrow> scored list" where
  "retrieve w queryEmbedding rows topK =
     js_slice
       (js_sort (\<lambda>a b. js_sub (score b) (score a))
          (filter (\<lambda>x. js_ge (score x) (Fin 0)) (map (score_row w queryEmbedding) rows)))
       0 topK"

definition citation_of :: "scored \<Rightarrow> citation" where
  "citation_of x =
     \<lparr>cit_id = row_id (scored_row x), cit_source = row_source (scored_row x),
      cit_chunkIndex = row_chunk_index (scored_row x), cit_score = score x\<rparr>"

text \<open>The template \<open>`Source: ${x.row.source}#${x.row.chunk_index}\n${x.row.content}`\<close>.\<close>

definition context_block :: "scored \<Rightarrow> jsstring" where
  "context_block x =
     ascii ''Source: '' @ row_source (scored_row x) @ ascii ''#'' @
     show_int (row_chunk_index (scored_row x)) @ [LF] @ row_content (scored_row x)"

text \<open>\<open>[...messages].reverse().find((m) => m.role === "user")?.content\<close>.\<close>

definition lastUser :: "message list \<Rightarrow> jsstring option" where
  "lastUser ms = map_option content (find (\<lambda>m. role m = ascii ''user'') (rev ms))"

definition topK :: "world \<Rightarrow> chat_request \<Rightarrow> int" where
  "topK w req =
     (case top_k req of
        Some k \<Rightarrow> k
      | None \<Rightarrow> (case RAG_TOP_K w of None \<Rightarrow> 4 | Some k \<Rightarrow> k))"

text \<open>
  The block \<open>if (useRag) { ... }\<close> of the chat handler. It leaves \<open>citations\<close> and
  \<open>ragContext\<close>, which start as \<open>[]\<close> and \<open>""\<close>, or throws what \<open>embedText\<close> throws.
\<close>

definition retrieval ::
  "world \<Rightarrow> store \<Rightarrow> chat_request \<Rightarrow> (js_error + citation list \<times> jsstring) \<times> call list" where
  "retrieval w db req =
     (if use_rag req = Some True then
        (case lastUser (messages req) of
           None \<Rightarrow> (Inr ([], []), [])
         | Some q \<Rightarrow>
             if 0 < length q then
               (case embedText w 0 q of
                  Inl err \<Rightarrow> (Inl err, [Embedding_call q])
                | Inr queryEmbedding \<Rightarrow>
                    (Inr (map citation_of
                            (retrieve w queryEmbedding (rag_chunks db) (topK w req)),
                          js_join [LF, LF]
                            (map context_block
                               (retrieve w queryEmbedding (rag_chunks db) (topK w req)))),
                     [Embedding_call q]))
             else (Inr ([], []), []))
      else (Inr ([], []), []))"

section \<open>Chat\<close>

definition DEFAULT_SYSTEM_PROMPT :: jsstring where
  "DEFAULT_SYSTEM_PROMPT =
     ascii ''You are a helpful assistant. Answer clearly and concisely. If you are unsure, say you are unsure.''"

definition context_instruction :: "jsstring \<Rightarrow> message" where
  "context_instruction ragContext =
     \<lparr>role = ascii ''system'',
      content = ascii ''Use the following context to answer the user. If the context is insufficient, say you are unsure.''
                @ [LF, LF] @ ragContext\<rparr>"

text \<open>The body of the request to \<open>/chat/completions\<close>.\<close>

definition completion_request_of :: "world \<Rightarrow> chat_request \<Rightarrow> jsstring \<Rightarrow> completion_request" where
  "completion_request_of w req ragContext =
     \<lparr>cr_model = (case DEEPSEEK_MODEL w of None \<Rightarrow> ascii ''deepseek-chat'' | Some m \<Rightarrow> m),
      cr_temperature = temperature req,
      cr_max_tokens = max_tokens req,
      cr_messages =
        [\<lparr>role = ascii ''system'',
          content = (case SYSTEM_PROMPT w of None \<Rightarrow> DEFAULT_SYSTEM_PROMPT | Some p \<Rightarrow> p)\<rparr>]
        @ (if use_rag req = Some True \<and> 0 < length ragContext
           then [context_instruction ragContext] else [])
        @ messages req\<rparr>"

text \<open>
  \<open>Number(process.env.DEEPSEEK_TIMEOUT_MS ?? 20000)\<close>, and the delay that \<open>setTimeout\<close>
  makes of it: a delay below 1 or above \<open>2^31 - 1\<close> is set to 1.
\<close>

definition timeoutMs :: "world \<Rightarrow> int" where
  "timeoutMs w = (case DEEPSEEK_TIMEOUT_MS w of None \<Rightarrow> 20000 | Some ms \<Rightarrow> ms)"

definition timer_delay :: "int \<Rightarrow> nat" where
  "timer_delay ms = (if 1 \<le> ms \<and> ms \<le> 2147483647 then nat ms else 1)"

text \<open>
  \<open>await fetch(..., {signal: controller.signal}).finally(() => clearTimeout(timeout))\<close>
  with the timer \<open>setTimeout(() => controller.abort(), timeoutMs)\<close> running. The timer is
  cleared when the promise of \<open>fetch\<close> settles, which a response does when its headers
  have arrived. So the timer fires, and the call is aborted, exactly when the promise
  has not settled before the delay is over (a promise due in the very millisecond of the
  timer comes second); the time the body takes is not bounded by it.
\<close>

definition completion_fetch :: "world \<Rightarrow> completion_request \<Rightarrow> fetch_result" where
  "completion_fetch w creq =
     (case completion_exchange w creq of
        No_answer \<Rightarrow> Fetch_aborted
      | Refused t \<Rightarrow> if t < timer_delay (timeoutMs w) then Fetch_failed else Fetch_aborted
      | Answered t1 t2 res \<Rightarrow>
          if t1 < timer_delay (timeoutMs w) then Fetch_response res else Fetch_aborted)"

text \<open>
  The chat handler from the \<open>fetch\<close> of the completion on: a rejected fetch, the abort
  on timeout among them, and a body that is no JSON are thrown and end in the
  \<open>catch\<close> block.
\<close>

definition completion ::
  "world \<Rightarrow> completion_request \<Rightarrow> citation list \<Rightarrow> http_reply" where
  "completion w creq citations =
     (case completion_fetch w creq of
        Fetch_failed \<Rightarrow> internal_error w
      | Fetch_aborted \<Rightarrow> internal_error w
      | Fetch_response res \<Rightarrow>
          if \<not> res_ok res then upstream_error w res
          else
            (case body_json res of
               None \<Rightarrow> internal_error w
             | Some data \<Rightarrow>
                 (case Option.bind
                         (Option.bind (Option.bind (get_prop ''choices'' data) index0)
                            (get_prop ''message''))
                         (get_prop ''content'') of
                    Some (JStr message) \<Rightarrow>
                      if length message = 0 then bad_upstream_response w
                      else \<lparr>status_code = 200,
                            reply = Chat_reply message (randomUUID w) (cr_model creq) citations\<rparr>
                  | _ \<Rightarrow> bad_upstream_response w)))"

text \<open>The handler of \<open>POST /chat\<close>: the reply and the outbound calls, in order.\<close>

definition chat_handler :: "world \<Rightarrow> store \<Rightarrow> json \<Rightarrow> http_reply \<times> call list" where
  "chat_handler w db body =
     (case ChatRequestSchema body of
        None \<Rightarrow> (bad_request w, [])
      | Some req \<Rightarrow>
          (case apiKey w of
             None \<Rightarrow> (missing_api_key w, [])
           | Some key \<Rightarrow>
               (case retrieval w db req of
                  (Inl err, calls) \<Rightarrow> (internal_error w, calls)
                | (Inr (citations, ragContext), calls) \<Rightarrow>
                    (completion w (completion_request_of w req ragContext) citations,
                     calls @ [Completion_call (completion_request_of w req ragContext)]))))"

text \<open>The comparator of the retrieval step, and the order it sorts into.\<close>

abbreviation by_score :: "scored \<Rightarrow> scored \<Rightarrow> jsnum" where
  "by_score \<equiv> (\<lambda>a b. js_sub (score b) (score a))"

abbreviation score_ge :: "scored \<Rightarrow> scored \<Rightarrow> bool" where
  "score_ge \<equiv> (\<lambda>a b. js_ge (score a) (score b))"

section \<open>Sample requests\<close>

text \<open>
  A world in which both providers answer well, used to run the handlers on concrete
  requests: the embedding provider returns the vector \<open>[1]\<close>, the completion provider
  sends its headers after 300 ms and the answer \<open>"hello"\<close> after 400 ms, and the storage
  accepts every statement. Three rows are stored, with the vectors \<open>[0]\<close>, \<open>[-1]\<close> and
  \<open>[2]\<close>.
\<close>

definition embedding_ok :: http_response where
  "embedding_ok =
     \<lparr>http_status = 200, body_text = [],
      body_json = Some (JObj [(ascii ''data'',
                    JArr [JObj [(ascii ''embedding'', JArr [JNum (Fin 1)])]])])\<rparr>"

definition completion_ok :: http_response where
  "completion_ok =
     \<lparr>http_status = 200, body_text = [],
      body_json = Some (JObj [(ascii ''choices'',
                    JArr [JObj [(ascii ''message'',
                            JObj [(ascii ''content'', JStr (ascii ''hello''))])]])])\<rparr>"

definition sample_world :: world where
  "sample_world =
     \<lparr>chunk_settings = default_chunk_env,
      DEEPSEEK_API_KEY = Some (ascii ''sk-1''),
      DEEPSEEK_MODEL = None,
      DEEPSEEK_TIMEOUT_MS = None,
      SYSTEM_PROMPT = Some (ascii ''Be brief.''),
      RAG_TOP_K = None,
      randomUUID = ascii ''id-1'',
      Date_now = 1000,
      embedding_fetch = (\<lambda>n input. Fetch_response embedding_ok),
      completion_exchange = (\<lambda>creq. Answered 300 400 completion_ok),
      sqlite_throws = (\<lambda>step. False),
      ToNumber_object = (\<lambda>v. NaN),
      JSON_parse = (\<lambda>s. if s = ascii ''[0]'' then Some (JArr [JNum (Fin 0)])
                        else if s = ascii ''[-1]'' then Some (JArr [JNum (Fin (- 1))])
                        else if s = ascii ''[2]'' then Some (JArr [JNum (Fin 2)])
                        else None),
      JSON_stringify = (\<lambda>v. ascii ''[1]'')\<rparr>"

definition sample_row :: "int \<Rightarrow> int \<Rightarrow> string \<Rightarrow> string \<Rightarrow> stored_row" where
  "sample_row i n text json =
     \<lparr>row_source = ascii ''doc'', row_chunk_index = n, row_content = ascii text,
      row_embedding_json = ascii json, row_created_at = 900, row_id = i\<rparr>"

definition sample_store :: store where
  "sample_store =
     \<lparr>rag_chunks = [sample_row 1 0 ''alpha'' ''[0]'', sample_row 2 1 ''beta'' ''[-1]'',
                    sample_row 3 2 ''gamma'' ''[2]''],
      sqlite_sequence = 3\<rparr>"

definition user_says :: "string \<Rightarrow> json" where
  "user_says text =
     JObj [(ascii ''role'', JStr (ascii ''user'')), (ascii ''content'', JStr (ascii text))]"

definition empty_chat :: json where
  "empty_chat = JObj [(ascii ''messages'', JArr [])]"

definition hi_chat :: json where
  "hi_chat = JObj [(ascii ''messages'', JArr [user_says ''hi''])]"

definition blank_chat :: json where
  "blank_chat = JObj [(ascii ''messages'', JArr [user_says ''''])]"

definition rag_chat :: json where
  "rag_chat =
     JObj [(ascii ''messages'', JArr [user_says ''hi'']), (ascii ''use_rag'', JBool True),
           (ascii ''top_k'', JNum (Fin 2))]"

definition two_paragraphs :: json where
  "two_paragraphs =
     JObj [(ascii ''source'', JStr (ascii ''doc2'')),
           (ascii ''text'', JStr (ascii ''A.'' @ [LF, LF] @ ascii ''B.''))]"

text \<open>
  The completion provider never answers; it sends its headers after 25 s, later than the
  20 s of the timer; it sends its headers after 300 ms and takes 60 s over the body.
\<close>

definition timeout_world :: world where
  "timeout_world = sample_world\<lparr>completion_exchange := (\<lambda>creq. No_answer)\<rparr>"

definition late_headers_world :: world where
  "late_headers_world =
     sample_world\<lparr>completion_exchange := (\<lambda>creq. Answered 25000 25100 completion_ok)\<rparr>"

definition slow_body_world :: world where
  "slow_body_world =
     sample_world\<lparr>completion_exchange := (\<lambda>creq. Answered 300 60000 completion_ok)\<rparr>"

text \<open>The embedding provider answers 500; or 200 with a body that holds no vector.\<close>

definition embedding_down_world :: world where
  "embedding_down_world =
     sample_world\<lparr>embedding_fetch :=
       (\<lambda>n input. Fetch_response \<lparr>http_status = 500, body_text = ascii ''boom'',
                                    body_json = None\<rparr>)\<rparr>"

definition embedding_garbled_world :: world where
  "embedding_garbled_world =
     sample_world\<lparr>embedding_fetch :=
       (\<lambda>n input. Fetch_response \<lparr>http_status = 200, body_text = ascii ''{}'',
                                    body_json = Some (JObj [])\<rparr>)\<rparr>"

text \<open>The second embedding call of a request fails, the others succeed.\<close>

definition second_embedding_fails_world :: world where
  "second_embedding_fails_world =
     sample_world\<lparr>embedding_fetch :=
       (\<lambda>n input. if n = 1 then Fetch_failed else Fetch_response embedding_ok)\<rparr>"

text \<open>SQLite refuses the second insert of a transaction; it refuses the commit.\<close>

definition second_insert_fails_world :: world where
  "second_insert_fails_world = sample_world\<lparr>sqlite_throws := (\<lambda>step. step = Sqlite_insert 1)\<rparr>"

definition commit_fails_world :: world where
  "commit_fails_world = sample_world\<lparr>sqlite_throws := (\<lambda>step. step = Sqlite_commit)\<rparr>"

text \<open>
  The maximum chunk length is set to 100, below the default overlap of 120; and an ingest
  request with one paragraph of 101 letters \<open>a\<close>.
\<close>

definition looping_world :: world where
  "looping_world =
     sample_world\<lparr>chunk_settings :=
       \<lparr>RAG_CHUNK_MAX_CHARS = Some 100, RAG_CHUNK_OVERLAP_CHARS = None\<rparr>\<rparr>"

definition long_paragraph :: json where
  "long_paragraph =
     JObj [(ascii ''source'', JStr (ascii ''doc3'')), (ascii ''text'', JStr (replicate 101 0x61))]"

text \<open>The completion requests and the replies the sample requests come to.\<close>

definition hi_completion :: completion_request where
  "hi_completion =
     \<lparr>cr_model = ascii ''deepseek-chat'', cr_temperature = None, cr_max_tokens = None,
      cr_messages = [\<lparr>role = ascii ''system'', content = ascii ''Be brief.''\<rparr>,
                     \<lparr>role = ascii ''user'', content = ascii ''hi''\<rparr>]\<rparr>"

definition rag_completion :: completion_request where
  "rag_completion =
     \<lparr>cr_model = ascii ''deepseek-chat'', cr_temperature = None, cr_max_tokens = None,
      cr_messages =
        [\<lparr>role = ascii ''system'', content = ascii ''Be brief.''\<rparr>,
         \<lparr>role = ascii ''system'',
          content = ascii ''Use the following context to answer the user. If the context is insufficient, say you are unsure.''
                    @ [LF, LF] @ ascii ''Source: doc#2'' @ [LF] @ ascii ''gamma''
                    @ [LF, LF] @ ascii ''Source: doc#0'' @ [LF] @ ascii ''alpha''\<rparr>,
         \<lparr>role = ascii ''user'', content = ascii ''hi''\<rparr>]\<rparr>"

definition rag_citations :: "citation list" where
  "rag_citations =
     [\<lparr>cit_id = 3, cit_source = ascii ''doc'', cit_chunkIndex = 2, cit_score = Fin 1\<rparr>,
      \<lparr>cit_id = 1, cit_source = ascii ''doc'', cit_chunkIndex = 0, cit_score = Fin 0\<rparr>]"

definition internal_error_reply :: http_reply where
  "internal_error_reply =
     \<lparr>status_code = 500,
      reply = Error_reply (ascii ''INTERNAL_ERROR'') (ascii ''Internal server error'')
                (ascii ''id-1'')\<rparr>"

section \<open>Properties of the chunker\<close>

subsection \<open>Strings\<close>

lemma normalize_crlf_length: "length (normalize_crlf s) \<le> length s"
  by (induction s rule: normalize_crlf.induct) auto

lemma normalize_crlf_no_CR: "CR \<notin> set s \<Longrightarrow> normalize_crlf s = s"
  by (induction s rule: normalize_crlf.induct) auto

lemma js_trim_length: "length (js_trim s) \<le> length s"
proof -
  have "length (js_trim s) \<le> length (dropWhile is_ws s)"
    unfolding js_trim_def using length_dropWhile_le[of is_ws "rev (dropWhile is_ws s)"] by simp
  also have "\<dots> \<le> length s" by (rule length_dropWhile_le)
  finally show ?thesis .
qed

lemma js_trim_id:
  assumes "s \<noteq> []" "\<not> is_ws (hd s)" "\<not> is_ws (last s)"
  shows "js_trim s = s"
proof -
  from assms(1,2) have 1: "dropWhile is_ws s = s" by (cases s) auto
  from assms(1,3) have 2: "dropWhile is_ws (rev s) = rev s" by (cases "rev s") (auto simp: last_rev[symmetric] simp del: last_rev)
  show ?thesis by (simp add: js_trim_def 1 2)
qed

lemma split_blank_one:
  "\<not> has_blank_line s \<Longrightarrow> split_blank cur s = [cur @ s]"
  by (induction s arbitrary: cur rule: has_blank_line.induct) auto

lemma js_slice_window:
  assumes "0 \<le> start" "start \<le> int (length s)" "0 \<le> maxLen"
  shows "js_slice s start (min (int (length s)) (start + maxLen)) = take (nat maxLen) (drop (nat start) s)"
proof -
  have "take (nat (min (int (length s)) (start + maxLen) - start)) (drop (nat start) s)
        = take (nat maxLen) (drop (nat start) s)"
  proof (cases "start + maxLen \<le> int (length s)")
    case True
    then show ?thesis by (simp add: min_def)
  next
    case False
    then have "length (drop (nat start) s) \<le> nat maxLen" "length (drop (nat start) s) \<le> nat (int (length s) - start)"
      using assms by auto
    then show ?thesis using False by (simp add: min_def)
  qed
  then show ?thesis using assms by (simp add: js_slice_def Let_def min_def)
qed

subsection \<open>The window loop\<close>

lemma window_loop_total:
  assumes "overlap < maxLen" "0 \<le> start"
  shows "\<exists>r. window_loop maxLen overlap part start chunks = Some r"
  using assms(2)
proof (induction "nat (int (length part) - start)" arbitrary: start chunks rule: less_induct)
  case less
  show ?case
  proof (cases "start < int (length part)")
    case False
    then show ?thesis by (subst window_loop.simps) simp
  next
    case inside: True
    show ?thesis
    proof (cases "min (int (length part)) (start + maxLen) \<ge> int (length part)")
      case True
      with inside show ?thesis by (subst window_loop.simps) simp
    next
      case False
      then have e: "min (int (length part)) (start + maxLen) = start + maxLen" by simp
      define start' where "start' = max 0 (start + maxLen - overlap)"
      have "start < start'" using assms(1) less.prems by (simp add: start'_def)
      then have "nat (int (length part) - start') < nat (int (length part) - start)" "0 \<le> start'"
        using inside less.prems by auto
      from less.hyps[OF this]
      obtain r where "window_loop maxLen overlap part start' (chunks @ [js_slice part start (start + maxLen)]) = Some r"
        by blast
      with inside False e show ?thesis
        by (subst window_loop.simps) (simp add: start'_def)
    qed
  qed
qed

lemma window_loop_windows:
  assumes "0 \<le> overlap" "overlap < maxLen" "0 \<le> start" "start < int (length part)"
  shows "\<exists>ws. window_loop maxLen overlap part start chunks = Some (chunks @ ws) \<and> ws \<noteq> [] \<and>
           (\<forall>j<length ws. ws ! j = take (nat maxLen) (drop (nat start + j * nat (maxLen - overlap)) part)) \<and>
           (\<forall>j. Suc j < length ws \<longrightarrow> nat start + j * nat (maxLen - overlap) + nat maxLen < length part)"
  using assms(3,4)
proof (induction "nat (int (length part) - start)" arbitrary: start chunks rule: less_induct)
  case less
  let ?L = "int (length part)"
  let ?e = "min ?L (start + maxLen)"
  let ?w = "take (nat maxLen) (drop (nat start) part)"
  have w: "js_slice part start ?e = ?w"
    using less.prems assms by (intro js_slice_window) auto
  show ?case
  proof (cases "?e \<ge> ?L")
    case True
    with less.prems w have "window_loop maxLen overlap part start chunks = Some (chunks @ [?w])"
      by (subst window_loop.simps) simp
    then show ?thesis by (intro exI[of _ "[?w]"]) simp
  next
    case False
    then have e: "?e = start + maxLen" and lt: "start + maxLen < ?L" by simp_all
    define start' where "start' = start + (maxLen - overlap)"
    have s': "max 0 (?e - overlap) = start'" using assms less.prems e by (simp add: start'_def)
    have "nat (?L - start') < nat (?L - start)" "0 \<le> start'" "start' < ?L"
      using assms less.prems lt by (auto simp: start'_def)
    from less.hyps[OF this, of "chunks @ [?w]"]
    obtain ws where ws: "window_loop maxLen overlap part start' (chunks @ [?w]) = Some ((chunks @ [?w]) @ ws)"
      "ws \<noteq> []"
      "\<forall>j<length ws. ws ! j = take (nat maxLen) (drop (nat start' + j * nat (maxLen - overlap)) part)"
      "\<forall>j. Suc j < length ws \<longrightarrow> nat start' + j * nat (maxLen - overlap) + nat maxLen < length part"
      by blast
    have ns: "nat start' = nat start + nat (maxLen - overlap)"
      using assms less.prems by (simp add: start'_def nat_add_distrib)
    have run: "window_loop maxLen overlap part start chunks = Some (chunks @ (?w # ws))"
      using less.prems False w s' ws(1) by (subst window_loop.simps) simp
    have idx: "\<forall>j<length (?w # ws). (?w # ws) ! j = take (nat maxLen) (drop (nat start + j * nat (maxLen - overlap)) part)"
    proof (intro allI impI)
      fix j assume "j < length (?w # ws)"
      then show "(?w # ws) ! j = take (nat maxLen) (drop (nat start + j * nat (maxLen - overlap)) part)"
        using ws(3) ns by (cases j) (simp_all add: add.assoc)
    qed
    have full: "\<forall>j. Suc j < length (?w # ws) \<longrightarrow> nat start + j * nat (maxLen - overlap) + nat maxLen < length part"
    proof (intro allI impI)
      fix j assume j: "Suc j < length (?w # ws)"
      show "nat start + j * nat (maxLen - overlap) + nat maxLen < length part"
      proof (cases j)
        case 0
        then show ?thesis using lt less.prems assms by (simp add: nat_less_iff nat_add_distrib)
      next
        case (Suc k)
        with j have "Suc k < length ws" by simp
        with ws(4) have "nat start' + k * nat (maxLen - overlap) + nat maxLen < length part" by blast
        then show ?thesis using Suc ns by (simp add: add.assoc)
      qed
    qed
    from run idx full show ?thesis by (intro exI[of _ "?w # ws"]) simp
  qed
qed

lemma window_loop_stuck:
  assumes "window_loop maxLen overlap part start chunks = Some r"
  shows "maxLen \<le> overlap \<longrightarrow> maxLen < int (length part) \<longrightarrow> part \<noteq> [] \<longrightarrow> start \<noteq> 0"
  using assms
proof (induction rule: window_loop.raw_induct[rotated 1, consumes 1])
  case (1 loop maxLen overlap part start chunks r)
  show ?case
  proof (intro impI notI)
    assume le: "maxLen \<le> overlap" and lt: "maxLen < int (length part)" and ne: "part \<noteq> []"
      and z: "start = 0"
    have pos: "0 < int (length part)"
      using ne by simp
    have e: "min (int (length part)) (0 + maxLen) = maxLen"
      using lt by simp
    have n: "\<not> int (length part) \<le> maxLen" "max 0 (maxLen - overlap) = 0"
      using lt le by simp_all
    from 1(2) have "loop maxLen overlap part 0 (chunks @ [js_slice part 0 maxLen]) = Some r"
      unfolding z e using pos n by simp
    from 1(1)[OF this] le lt ne show False by simp
  qed
qed

lemma window_loop_diverges:
  assumes "maxLen \<le> overlap" "maxLen < int (length part)" "part \<noteq> []"
  shows "window_loop maxLen overlap part 0 chunks = None"
  using window_loop_stuck[of maxLen overlap part 0 chunks] assms
  by (cases "window_loop maxLen overlap part 0 chunks") auto

subsection \<open>The loop over the paragraphs\<close>

lemma chunk_parts_total:
  assumes "overlap < maxLen"
  shows "\<exists>r. chunk_parts maxLen overlap parts chunks = Some r"
proof (induction parts arbitrary: chunks)
  case Nil
  show ?case by simp
next
  case (Cons part parts)
  show ?case
  proof (cases "int (length part) \<le> maxLen")
    case True
    with Cons show ?thesis by simp
  next
    case False
    from window_loop_total[OF assms, of 0 part chunks]
    obtain r where "window_loop maxLen overlap part 0 chunks = Some r" by auto
    with False Cons[of r] show ?thesis by simp
  qed
qed

lemma chunk_parts_bounded:
  assumes "0 \<le> overlap" "overlap < maxLen"
    and "chunk_parts maxLen overlap parts chunks = Some r"
    and "\<forall>c\<in>set chunks. int (length c) \<le> maxLen"
  shows "\<forall>c\<in>set r. int (length c) \<le> maxLen"
  using assms(3,4)
proof (induction parts arbitrary: chunks)
  case Nil
  then show ?case by simp
next
  case (Cons part parts)
  show ?case
  proof (cases "int (length part) \<le> maxLen")
    case True
    with Cons.prems have "chunk_parts maxLen overlap parts (chunks @ [part]) = Some r"
      "\<forall>c\<in>set (chunks @ [part]). int (length c) \<le> maxLen" by simp_all
    then show ?thesis by (rule Cons.IH)
  next
    case False
    with assms(1,2) have "0 < int (length part)" by linarith
    from window_loop_windows[OF assms(1,2) _ this, of chunks]
    obtain ws where ws: "window_loop maxLen overlap part 0 chunks = Some (chunks @ ws)"
      "\<forall>j<length ws. ws ! j = take (nat maxLen) (drop (nat 0 + j * nat (maxLen - overlap)) part)"
      by auto
    have "\<forall>c\<in>set ws. int (length c) \<le> maxLen"
    proof
      fix c assume "c \<in> set ws"
      then obtain j where "j < length ws" "c = ws ! j" by (auto simp: in_set_conv_nth)
      with ws(2) have "c = take (nat maxLen) (drop (nat 0 + j * nat (maxLen - overlap)) part)" by simp
      then show "int (length c) \<le> maxLen" using assms(1,2) by simp
    qed
    with Cons.prems(2) have b: "\<forall>c\<in>set (chunks @ ws). int (length c) \<le> maxLen" by auto
    from Cons.prems(1) False ws(1) have "chunk_parts maxLen overlap parts (chunks @ ws) = Some r" by simp
    from Cons.IH[OF this b] show ?thesis .
  qed
qed

subsection \<open>A single paragraph between whitespace\<close>

lemma dropWhile_LF_whitespace:
  assumes "r \<noteq> []" "\<not> is_ws (hd r)"
  shows "dropWhile (\<lambda>d. d = LF) (w @ r) = dropWhile (\<lambda>d. d = LF) w @ r"
proof -
  from assms have "hd r \<noteq> LF" by (auto simp: is_ws_def LF_def)
  with assms(1) have "dropWhile (\<lambda>d. d = LF) r = r" by (cases r) auto
  then show ?thesis by (simp add: dropWhile_append)
qed

lemma split_blank_leading:
  assumes "r \<noteq> []" "\<not> is_ws (hd r)"
    and "\<forall>c\<in>set w. is_ws c" "\<forall>c\<in>set cur. is_ws c"
  shows "\<exists>junk cur'. split_blank cur (w @ r) = junk @ split_blank cur' r \<and>
           (\<forall>c\<in>set cur'. is_ws c) \<and> (\<forall>p\<in>set junk. \<forall>c\<in>set p. is_ws c)"
  using assms(3,4)
proof (induction "length w" arbitrary: w cur rule: less_induct)
  case less
  show ?case
  proof (cases w)
    case Nil
    with less.prems show ?thesis by (intro exI[of _ "[]"] exI[of _ cur]) simp
  next
    case (Cons c cs)
    from assms have r: "hd (cs @ r) = LF \<longleftrightarrow> cs \<noteq> [] \<and> hd cs = LF"
      by (cases cs) (auto simp: is_ws_def LF_def)
    show ?thesis
    proof (cases "c = LF \<and> cs \<noteq> [] \<and> hd cs = LF")
      case True
      let ?w' = "dropWhile (\<lambda>d. d = LF) cs"
      have "length ?w' < length w" using Cons length_dropWhile_le[of "\<lambda>d. d = LF" cs] by simp
      moreover have "\<forall>c\<in>set ?w'. is_ws c" using less.prems(1) Cons set_dropWhileD by fastforce
      ultimately obtain junk cur' where j: "split_blank [] (?w' @ r) = junk @ split_blank cur' r"
        "\<forall>c\<in>set cur'. is_ws c" "\<forall>p\<in>set junk. \<forall>c\<in>set p. is_ws c"
        using less.hyps[of ?w' "[]"] by auto
      have "split_blank cur (w @ r) = cur # split_blank [] (?w' @ r)"
        using True Cons r dropWhile_LF_whitespace[OF assms(1,2), of cs] by simp
      with j less.prems(2) show ?thesis
        by (intro exI[of _ "cur # junk"] exI[of _ cur']) simp
    next
      case False
      have "length cs < length w" using Cons by simp
      moreover have "\<forall>c\<in>set cs. is_ws c" "\<forall>x\<in>set (cur @ [c]). is_ws x"
        using less.prems Cons by auto
      ultimately obtain junk cur' where j: "split_blank (cur @ [c]) (cs @ r) = junk @ split_blank cur' r"
        "\<forall>c\<in>set cur'. is_ws c" "\<forall>p\<in>set junk. \<forall>c\<in>set p. is_ws c"
        using less.hyps[of cs "cur @ [c]"] by blast
      have "split_blank cur (w @ r) = split_blank (cur @ [c]) (cs @ r)"
        using False Cons r by auto
      with j show ?thesis by (intro exI[of _ junk] exI[of _ cur']) simp
    qed
  qed
qed

lemma split_blank_core:
  assumes "\<not> has_blank_line core" "core \<noteq> []" "\<not> is_ws (last core)"
  shows "split_blank cur (core @ w) = split_blank (cur @ core) w"
  using assms
proof (induction core arbitrary: cur)
  case Nil
  then show ?case by simp
next
  case (Cons c cs)
  show ?case
  proof (cases cs)
    case Nil
    with Cons.prems have "c \<noteq> LF" by (auto simp: is_ws_def LF_def)
    with Nil show ?thesis by simp
  next
    case tail: (Cons d rest)
    from Cons.prems tail have nb: "\<not> (c = LF \<and> d = LF)" and t: "\<not> has_blank_line cs"
      and l: "\<not> is_ws (last cs)" and ne: "cs \<noteq> []"
      by simp_all
    from nb tail have "split_blank cur ((c # cs) @ w) = split_blank (cur @ [c]) (cs @ w)"
      by auto
    also have "\<dots> = split_blank ((cur @ [c]) @ cs) w"
      by (rule Cons.IH[OF t ne l])
    finally show ?thesis by simp
  qed
qed

lemma split_blank_trailing:
  assumes "\<forall>c\<in>set w. is_ws c"
  shows "\<exists>u junk. split_blank cur w = (cur @ u) # junk \<and>
           (\<forall>c\<in>set u. is_ws c) \<and> (\<forall>p\<in>set junk. \<forall>c\<in>set p. is_ws c)"
  using assms
proof (induction "length w" arbitrary: w cur rule: less_induct)
  case less
  show ?case
  proof (cases w)
    case Nil
    then show ?thesis by (intro exI[of _ "[]"]) simp
  next
    case (Cons c cs)
    show ?thesis
    proof (cases "c = LF \<and> cs \<noteq> [] \<and> hd cs = LF")
      case True
      let ?w' = "dropWhile (\<lambda>d. d = LF) cs"
      have "length ?w' < length w" using Cons length_dropWhile_le[of "\<lambda>d. d = LF" cs] by simp
      moreover have "\<forall>c\<in>set ?w'. is_ws c" using less.prems Cons set_dropWhileD by fastforce
      ultimately obtain u junk where j: "split_blank [] ?w' = ([] @ u) # junk"
        "\<forall>c\<in>set u. is_ws c" "\<forall>p\<in>set junk. \<forall>c\<in>set p. is_ws c"
        using less.hyps[of ?w' "[]"] by blast
      have "split_blank cur w = cur # split_blank [] ?w'" using True Cons by simp
      with j show ?thesis by (intro exI[of _ "[]"] exI[of _ "u # junk"]) simp
    next
      case False
      have "length cs < length w" using Cons by simp
      moreover have "\<forall>c\<in>set cs. is_ws c" using less.prems Cons by auto
      ultimately obtain u junk where j: "split_blank (cur @ [c]) cs = ((cur @ [c]) @ u) # junk"
        "\<forall>c\<in>set u. is_ws c" "\<forall>p\<in>set junk. \<forall>c\<in>set p. is_ws c"
        using less.hyps[of cs "cur @ [c]"] by blast
      have "split_blank cur w = split_blank (cur @ [c]) cs" using False Cons by auto
      moreover have "is_ws c" using less.prems Cons by simp
      ultimately show ?thesis using j by (intro exI[of _ "c # u"] exI[of _ junk]) simp
    qed
  qed
qed

lemma js_trim_whitespace:
  assumes "\<forall>c\<in>set p. is_ws c"
  shows "js_trim p = []"
proof -
  from assms have d: "dropWhile is_ws p = []" by (simp only: dropWhile_eq_Nil_conv)
  show ?thesis unfolding js_trim_def d by simp
qed

lemma js_trim_padded:
  assumes "\<forall>c\<in>set a. is_ws c" "\<forall>c\<in>set u. is_ws c"
    and "core \<noteq> []" "\<not> is_ws (hd core)" "\<not> is_ws (last core)"
  shows "js_trim (a @ core @ u) = core"
proof -
  from assms(3,4) have c: "dropWhile is_ws core = core" by (cases core) auto
  from assms(3,5) have r: "dropWhile is_ws (rev core) = rev core"
    by (cases "rev core") (auto simp: last_rev[symmetric] simp del: last_rev)
  from assms(3,4) have "hd core \<in> set core" "\<not> is_ws (hd core)" by simp_all
  then have "dropWhile is_ws (core @ u) = dropWhile is_ws core @ u"
    by (rule dropWhile_append1)
  moreover have "dropWhile is_ws (a @ core @ u) = dropWhile is_ws (core @ u)"
    using assms(1) by (intro dropWhile_append2) simp
  ultimately have 1: "dropWhile is_ws (a @ core @ u) = core @ u" using c by simp
  have "dropWhile is_ws (rev u @ rev core) = dropWhile is_ws (rev core)"
    using assms(2) by (intro dropWhile_append2) simp
  with r have 2: "dropWhile is_ws (rev u @ rev core) = rev core" by simp
  show ?thesis by (simp add: js_trim_def 1 2)
qed

lemma js_trim_decompose:
  assumes "js_trim n \<noteq> []"
  obtains a u where "n = a @ js_trim n @ u" "\<forall>c\<in>set a. is_ws c" "\<forall>c\<in>set u. is_ws c"
    "\<not> is_ws (hd (js_trim n))" "\<not> is_ws (last (js_trim n))"
proof -
  let ?m = "dropWhile is_ws n"
  let ?a = "takeWhile is_ws n"
  let ?u = "rev (takeWhile is_ws (rev ?m))"
  have core: "js_trim n = rev (dropWhile is_ws (rev ?m))" by (simp add: js_trim_def)
  have "js_trim n @ ?u = rev (takeWhile is_ws (rev ?m) @ dropWhile is_ws (rev ?m))"
    unfolding core by (simp only: rev_append)
  also have "\<dots> = rev (rev ?m)" by (simp only: takeWhile_dropWhile_id)
  finally have m: "?m = js_trim n @ ?u" by simp
  have n: "n = ?a @ js_trim n @ ?u" using m takeWhile_dropWhile_id[of is_ws n] by simp
  have a: "\<forall>c\<in>set ?a. is_ws c" by (auto dest: set_takeWhileD)
  have u: "\<forall>c\<in>set ?u. is_ws c" by (auto dest: set_takeWhileD)
  have "?m \<noteq> []"
  proof
    assume e: "?m = []"
    from m[unfolded e] have "js_trim n = []" by simp
    with assms show False by simp
  qed
  then have "\<not> is_ws (hd ?m)" by (rule hd_dropWhile)
  with m assms have h: "\<not> is_ws (hd (js_trim n))" by (metis hd_append2)
  from assms core have "dropWhile is_ws (rev ?m) \<noteq> []" by simp
  then have "\<not> is_ws (hd (dropWhile is_ws (rev ?m)))" by (rule hd_dropWhile)
  with assms core have l: "\<not> is_ws (last (js_trim n))" by (simp add: last_rev)
  from n a u h l show ?thesis by (rule that)
qed

lemma paragraphs_single:
  assumes "js_trim (normalize_crlf t) \<noteq> []" "\<not> has_blank_line (js_trim (normalize_crlf t))"
  shows "paragraphs t = [js_trim (normalize_crlf t)]"
proof -
  let ?n = "normalize_crlf t" and ?core = "js_trim (normalize_crlf t)"
  from assms(1) obtain a u where n: "?n = a @ ?core @ u"
    and a: "\<forall>c\<in>set a. is_ws c" and u: "\<forall>c\<in>set u. is_ws c"
    and h: "\<not> is_ws (hd ?core)" and l: "\<not> is_ws (last ?core)"
    by (rule js_trim_decompose)
  have r: "?core @ u \<noteq> []" "\<not> is_ws (hd (?core @ u))" using assms(1) h by simp_all
  have e: "\<forall>c\<in>set ([] :: jsstring). is_ws c" by simp
  from split_blank_leading[OF r a e]
  obtain junk cur' where 1: "split_blank [] (a @ ?core @ u) = junk @ split_blank cur' (?core @ u)"
    and cur': "\<forall>c\<in>set cur'. is_ws c" and junk: "\<forall>p\<in>set junk. \<forall>c\<in>set p. is_ws c"
    by auto
  have 2: "split_blank cur' (?core @ u) = split_blank (cur' @ ?core) u"
    by (rule split_blank_core[OF assms(2,1) l])
  from split_blank_trailing[OF u, of "cur' @ ?core"]
  obtain u' junk' where 3: "split_blank (cur' @ ?core) u = ((cur' @ ?core) @ u') # junk'"
    and u': "\<forall>c\<in>set u'. is_ws c" and junk': "\<forall>p\<in>set junk'. \<forall>c\<in>set p. is_ws c"
    by blast
  have j: "filter (\<lambda>s. length s > 0) (map js_trim ps) = []" if "\<forall>p\<in>set ps. \<forall>c\<in>set p. is_ws c" for ps
    using that by (induction ps) (simp_all add: js_trim_whitespace)
  have mid: "js_trim ((cur' @ ?core) @ u') = ?core"
    using js_trim_padded[OF cur' u' assms(1) h l] by simp
  have "split_blank [] ?n = junk @ ((cur' @ ?core) @ u') # junk'"
    using n 1 2 3 by simp
  then have "paragraphs t = filter (\<lambda>s. length s > 0) (map js_trim (junk @ ((cur' @ ?core) @ u') # junk'))"
    by (simp add: paragraphs_def)
  also have "\<dots> = [?core]"
    using j[OF junk] j[OF junk'] mid assms(1) by simp
  finally show ?thesis .
qed

subsection \<open>Short texts\<close>

text \<open>
  Claim C3 as stated fails: a text shorter than the maximum that holds a blank line gives
  one chunk per paragraph. Under the default settings \<open>"a\n\nb"\<close> (4 code units,
  maximum 800) gives the two chunks \<open>"a"\<close> and \<open>"b"\<close>, not the trimmed input.
\<close>

theorem chunkText_short_text_counterexample:
  "ascii ''a'' @ [LF, LF] @ ascii ''b'' \<noteq> [] \<and>
   int (length (ascii ''a'' @ [LF, LF] @ ascii ''b'')) < maxLen_of default_chunk_env \<and>
   chunkText default_chunk_env (ascii ''a'' @ [LF, LF] @ ascii ''b'') = Some [ascii ''a'', ascii ''b''] \<and>
   chunkText default_chunk_env (ascii ''a'' @ [LF, LF] @ ascii ''b'')
     \<noteq> Some [js_trim (ascii ''a'' @ [LF, LF] @ ascii ''b'')]"
  by (simp add: ascii_def LF_def CR_def chunkText_def paragraphs_def js_trim_def is_ws_def
      maxLen_of_def overlap_of_def default_chunk_env_def)

text \<open>
  Claim C3, amended: a text shorter than the maximum whose trimmed, line-ending-normalised
  form is not empty and holds no blank line gives exactly one chunk, that trimmed
  normalised text; it is the trimmed input when the text holds no CR.
\<close>

theorem chunkText_short_text:
  assumes "int (length text) < maxLen_of env"
    and "js_trim (normalize_crlf text) \<noteq> []"
    and "\<not> has_blank_line (js_trim (normalize_crlf text))"
  shows "chunkText env text = Some [js_trim (normalize_crlf text)] \<and>
         (CR \<notin> set text \<longrightarrow> chunkText env text = Some [js_trim text])"
proof -
  have p: "paragraphs text = [js_trim (normalize_crlf text)]"
    by (rule paragraphs_single[OF assms(2,3)])
  have "length (js_trim (normalize_crlf text)) \<le> length text"
    using js_trim_length[of "normalize_crlf text"] normalize_crlf_length[of "text"] by linarith
  with assms(1) have "int (length (js_trim (normalize_crlf text))) \<le> maxLen_of env" by linarith
  with p have "chunkText env text = Some [js_trim (normalize_crlf text)]"
    by (simp add: chunkText_def)
  then show ?thesis by (simp add: normalize_crlf_no_CR)
qed

theorem chunkText_short_text_witness:
  "int (length ([LF, LF] @ ascii '' a b '' @ [CR, LF])) < maxLen_of default_chunk_env \<and>
   js_trim (normalize_crlf ([LF, LF] @ ascii '' a b '' @ [CR, LF])) = ascii ''a b'' \<and>
   \<not> has_blank_line (ascii ''a b'') \<and>
   chunkText default_chunk_env ([LF, LF] @ ascii '' a b '' @ [CR, LF]) = Some [ascii ''a b'']"
proof -
  let ?t = "[LF, LF] @ ascii '' a b '' @ [CR, LF]"
  have n: "normalize_crlf ?t = [LF, LF] @ ascii '' a b '' @ [LF]"
    by (simp add: ascii_def CR_def LF_def)
  have 1: "int (length ?t) < maxLen_of default_chunk_env"
    by (simp add: ascii_def maxLen_of_def default_chunk_env_def)
  have 2: "js_trim (normalize_crlf ?t) = ascii ''a b''"
    unfolding n by (simp add: ascii_def LF_def js_trim_def is_ws_def)
  have 3: "js_trim (normalize_crlf ?t) \<noteq> []"
    unfolding 2 by (simp add: ascii_def)
  have 4: "\<not> has_blank_line (ascii ''a b'')"
    by (simp add: ascii_def LF_def)
  then have 5: "\<not> has_blank_line (js_trim (normalize_crlf ?t))"
    unfolding 2 .
  from chunkText_short_text[OF 1 3 5]
  have "chunkText default_chunk_env ?t = Some [js_trim (normalize_crlf ?t)]"
    by (rule conjunct1)
  then have "chunkText default_chunk_env ?t = Some [ascii ''a b'']"
    unfolding 2 .
  with 1 2 4 show ?thesis by blast
qed

subsection \<open>Termination\<close>

lemma no_LF_no_blank_line: "LF \<notin> set s \<Longrightarrow> \<not> has_blank_line s"
  by (induction s rule: has_blank_line.induct) auto

lemma paragraphs_replicate:
  assumes "0 < n" "\<not> is_ws a"
  shows "paragraphs (replicate n a) = [replicate n a]"
proof -
  from assms(2) have a: "a \<noteq> CR" "a \<noteq> LF" by (auto simp: is_ws_def CR_def LF_def)
  have 1: "normalize_crlf (replicate n a) = replicate n a"
    using a by (intro normalize_crlf_no_CR) auto
  have 2: "split_blank [] (replicate n a) = [replicate n a]"
    using a split_blank_one[OF no_LF_no_blank_line, of "replicate n a" "[]"] by auto
  have 3: "js_trim (replicate n a) = replicate n a"
    using assms by (intro js_trim_id) (auto simp: hd_replicate last_replicate)
  show ?thesis using assms(1) by (simp add: paragraphs_def 1 2 3)
qed

text \<open>
  The chunker returns on every text exactly when the overlap is below the maximum. The
  source never compares the two settings: with the overlap at or above the maximum the
  loop resets \<open>start\<close> to 0 on every round.
\<close>

lemma chunkText_total_iff:
  "(\<forall>t. \<exists>chunks. chunkText env t = Some chunks) \<longleftrightarrow> overlap_of env < maxLen_of env"
proof
  assume "overlap_of env < maxLen_of env"
  then show "\<forall>t. \<exists>chunks. chunkText env t = Some chunks"
    by (simp add: chunkText_def chunk_parts_total)
next
  assume total: "\<forall>t. \<exists>chunks. chunkText env t = Some chunks"
  show "overlap_of env < maxLen_of env"
  proof (rule ccontr)
    assume "\<not> overlap_of env < maxLen_of env"
    then have le: "maxLen_of env \<le> overlap_of env" by simp
    define t :: jsstring where "t = replicate (Suc (nat (maxLen_of env))) 0x61"
    have p: "paragraphs t = [t]"
      unfolding t_def by (rule paragraphs_replicate) (simp_all add: is_ws_def)
    have long: "maxLen_of env < int (length t)" and ne: "t \<noteq> []"
      by (simp_all add: t_def)
    from window_loop_diverges[OF le long ne]
    have "chunkText env t = None" using long by (simp add: chunkText_def p)
    with total show False by (metis option.distinct(1))
  qed
qed

text \<open>
  Claim C4: a maximum at or below the overlap is to be rejected, not looped on. The
  source does not reject it. With \<open>RAG_CHUNK_MAX_CHARS=100\<close> and the overlap left at
  its default of 120, \<open>chunkText\<close> never returns on a paragraph of 101 letters \<open>a\<close>.
\<close>

theorem chunkText_overlap_not_below_max_loops:
  "chunkText \<lparr>RAG_CHUNK_MAX_CHARS = Some 100, RAG_CHUNK_OVERLAP_CHARS = None\<rparr>
     (replicate 101 0x61) = None"
proof -
  have p: "paragraphs (replicate 101 (0x61 :: code_unit)) = [replicate 101 0x61]"
    by (rule paragraphs_replicate) (simp_all add: is_ws_def)
  have "window_loop 100 120 (replicate 101 (0x61 :: code_unit)) 0 [] = None"
    by (rule window_loop_diverges) simp_all
  then show ?thesis
    by (simp add: chunkText_def p maxLen_of_def overlap_of_def)
qed

subsection \<open>Sliding windows\<close>

lemma window_loop_last:
  assumes "0 \<le> overlap" "overlap < maxLen" "0 \<le> start" "start < int (length part)"
    and "window_loop maxLen overlap part start chunks = Some (chunks @ ws)"
  shows "length part \<le> nat start + (length ws - 1) * nat (maxLen - overlap) + nat maxLen"
  using assms(3,4,5)
proof (induction "nat (int (length part) - start)" arbitrary: start chunks ws rule: less_induct)
  case less
  let ?L = "int (length part)"
  let ?e = "min ?L (start + maxLen)"
  let ?w = "take (nat maxLen) (drop (nat start) part)"
  have w: "js_slice part start ?e = ?w"
    using less.prems assms by (intro js_slice_window) auto
  show ?case
  proof (cases "?e \<ge> ?L")
    case True
    with less.prems w have "window_loop maxLen overlap part start chunks = Some (chunks @ [?w])"
      by (subst window_loop.simps) simp
    with less.prems(3) have "ws = [?w]" by simp
    with True less.prems assms show ?thesis by (simp add: nat_le_iff)
  next
    case False
    then have e: "?e = start + maxLen" and lt: "start + maxLen < ?L" by simp_all
    define start' where "start' = start + (maxLen - overlap)"
    have s': "max 0 (?e - overlap) = start'" using assms less.prems e by (simp add: start'_def)
    have m: "nat (?L - start') < nat (?L - start)" "0 \<le> start'" "start' < ?L"
      using assms less.prems lt by (auto simp: start'_def)
    from window_loop_windows[OF assms(1,2) m(2,3), of "chunks @ [?w]"]
    obtain ws' where ws': "window_loop maxLen overlap part start' (chunks @ [?w]) = Some ((chunks @ [?w]) @ ws')"
      "ws' \<noteq> []" by blast
    have run: "window_loop maxLen overlap part start chunks = Some (chunks @ (?w # ws'))"
      using less.prems False w s' ws'(1) by (subst window_loop.simps) simp
    with less.prems(3) have eq: "ws = ?w # ws'" by simp
    from less.hyps[OF m ws'(1)]
    have "length part \<le> nat start' + (length ws' - 1) * nat (maxLen - overlap) + nat maxLen" .
    moreover have "nat start' = nat start + nat (maxLen - overlap)"
      using assms less.prems by (simp add: start'_def nat_add_distrib)
    moreover from ws'(2) have "length ws - 1 = Suc (length ws' - 1)" by (cases ws') (simp_all add: eq)
    ultimately show ?thesis by simp
  qed
qed

lemma window_loop_sliding:
  assumes "0 \<le> overlap" "overlap < maxLen" "maxLen < int (length part)"
  shows "\<exists>ws. window_loop maxLen overlap part 0 chunks = Some (chunks @ ws) \<and>
              sliding_windows maxLen overlap part ws"
proof -
  let ?m = "nat maxLen" and ?step = "nat (maxLen - overlap)"
  from assms have pos: "0 < int (length part)" by linarith
  from window_loop_windows[OF assms(1,2) _ pos, of chunks]
  obtain ws where ws: "window_loop maxLen overlap part 0 chunks = Some (chunks @ ws)"
    and ne: "ws \<noteq> []"
    and at: "\<forall>j<length ws. ws ! j = take ?m (drop (j * ?step) part)"
    and full: "\<forall>j. Suc j < length ws \<longrightarrow> j * ?step + ?m < length part"
    by auto
  have ov: "int (length (ws ! i)) = maxLen \<and> drop ?step (ws ! i) = take (nat overlap) (ws ! Suc i)"
    if i: "Suc i < length ws" for i
  proof -
    from full i have f: "i * ?step + ?m < length part" by blast
    from at i have wi: "ws ! i = take ?m (drop (i * ?step) part)"
      and wsi: "ws ! Suc i = take ?m (drop (Suc i * ?step) part)" by simp_all
    have len: "int (length (ws ! i)) = maxLen" using f assms by (simp add: wi)
    have mo: "?m - ?step = nat overlap" "min (nat overlap) ?m = nat overlap" using assms by simp_all
    have "drop ?step (ws ! i) = take (nat overlap) (drop (?step + i * ?step) part)"
      by (simp add: wi drop_take mo)
    also have "\<dots> = take (nat overlap) (ws ! Suc i)"
      by (simp add: wsi mo)
    finally show ?thesis using len by simp
  qed
  from window_loop_last[OF assms(1,2) _ pos ws]
  have "length part \<le> (length ws - 1) * ?step + ?m" by simp
  with ws ne at ov show ?thesis unfolding sliding_windows_def by blast
qed

lemma chunk_parts_windows:
  assumes "0 \<le> overlap" "overlap < maxLen"
  shows "\<exists>css. chunk_parts maxLen overlap parts chunks = Some (chunks @ concat css) \<and>
               list_all2 (chunks_of_part maxLen overlap) parts css"
proof (induction parts arbitrary: chunks)
  case Nil
  show ?case by simp
next
  case (Cons part parts)
  show ?case
  proof (cases "int (length part) \<le> maxLen")
    case True
    from Cons[of "chunks @ [part]"] obtain css where
      "chunk_parts maxLen overlap parts (chunks @ [part]) = Some ((chunks @ [part]) @ concat css)"
      "list_all2 (chunks_of_part maxLen overlap) parts css" by blast
    moreover from True have "chunks_of_part maxLen overlap part [part]"
      by (simp add: chunks_of_part_def)
    ultimately show ?thesis using True
      by (intro exI[of _ "[part] # css"]) simp
  next
    case False
    then have long: "maxLen < int (length part)" by simp
    from window_loop_sliding[OF assms long, of chunks] obtain ws where
      ws: "window_loop maxLen overlap part 0 chunks = Some (chunks @ ws)"
      "sliding_windows maxLen overlap part ws" by blast
    from Cons[of "chunks @ ws"] obtain css where
      "chunk_parts maxLen overlap parts (chunks @ ws) = Some ((chunks @ ws) @ concat css)"
      "list_all2 (chunks_of_part maxLen overlap) parts css" by blast
    moreover from False ws(2) have "chunks_of_part maxLen overlap part ws"
      by (simp add: chunks_of_part_def)
    ultimately show ?thesis using False ws(1)
      by (intro exI[of _ "ws # css"]) simp
  qed
qed

subsection \<open>Long texts\<close>

text \<open>
  Claim C8 as stated fails: chunks cut from different paragraphs need not overlap. With a
  maximum of 5 and an overlap of 1, the 14 code units \<open>"aaaa\n\nbbbb\n\ncccc"\<close> give
  three chunks, and the last code unit of the first is not the first of the second.
\<close>

theorem chunkText_window_overlap_counterexample:
  "chunkText \<lparr>RAG_CHUNK_MAX_CHARS = Some 5, RAG_CHUNK_OVERLAP_CHARS = Some 1\<rparr>
     (ascii ''aaaa'' @ [LF, LF] @ ascii ''bbbb'' @ [LF, LF] @ ascii ''cccc'')
   = Some [ascii ''aaaa'', ascii ''bbbb'', ascii ''cccc''] \<and>
   maxLen_of \<lparr>RAG_CHUNK_MAX_CHARS = Some 5, RAG_CHUNK_OVERLAP_CHARS = Some 1\<rparr>
     < int (length (ascii ''aaaa'' @ [LF, LF] @ ascii ''bbbb'' @ [LF, LF] @ ascii ''cccc'')) \<and>
   drop (length (ascii ''aaaa'') - 1) (ascii ''aaaa'') \<noteq> take 1 (ascii ''bbbb'')"
  by (simp add: ascii_def LF_def CR_def chunkText_def paragraphs_def js_trim_def is_ws_def
      maxLen_of_def overlap_of_def)

text \<open>
  Claim C8, amended: with \<open>0 \<le> overlap < maximum\<close>, every chunk of every text has at
  most the maximum length, and the chunks are, paragraph by paragraph in order, the
  paragraph itself when it is within the maximum, and otherwise its sliding windows:
  chunk \<open>i\<close> of the paragraph starts at \<open>i * (maximum - overlap)\<close>, every window but the
  last has the full length, and each window ends with the overlap many code units the
  next one starts with, the last pair of the paragraph included. The chunks of a
  paragraph depend on that paragraph alone.
\<close>

theorem chunkText_window_overlap:
  assumes "0 \<le> overlap_of env" "overlap_of env < maxLen_of env"
  shows "\<exists>css. chunkText env t = Some (concat css) \<and>
           (\<forall>c\<in>set (concat css). int (length c) \<le> maxLen_of env) \<and>
           list_all2 (chunks_of_part (maxLen_of env) (overlap_of env)) (paragraphs t) css"
proof -
  from chunk_parts_windows[OF assms, of "paragraphs t" "[]"]
  obtain css where run: "chunk_parts (maxLen_of env) (overlap_of env) (paragraphs t) [] = Some (concat css)"
    and parts: "list_all2 (chunks_of_part (maxLen_of env) (overlap_of env)) (paragraphs t) css"
    by auto
  from chunk_parts_bounded[OF assms run]
  have "\<forall>c\<in>set (concat css). int (length c) \<le> maxLen_of env" by simp
  with run parts show ?thesis unfolding chunkText_def by blast
qed

theorem chunkText_window_overlap_witness:
  "0 \<le> overlap_of \<lparr>RAG_CHUNK_MAX_CHARS = Some 5, RAG_CHUNK_OVERLAP_CHARS = Some 2\<rparr> \<and>
   overlap_of \<lparr>RAG_CHUNK_MAX_CHARS = Some 5, RAG_CHUNK_OVERLAP_CHARS = Some 2\<rparr>
     < maxLen_of \<lparr>RAG_CHUNK_MAX_CHARS = Some 5, RAG_CHUNK_OVERLAP_CHARS = Some 2\<rparr> \<and>
   paragraphs (ascii ''abcdefghijklmnop'') = [ascii ''abcdefghijklmnop''] \<and>
   maxLen_of \<lparr>RAG_CHUNK_MAX_CHARS = Some 5, RAG_CHUNK_OVERLAP_CHARS = Some 2\<rparr>
     < int (length (ascii ''abcdefghijklmnop'')) \<and>
   chunkText \<lparr>RAG_CHUNK_MAX_CHARS = Some 5, RAG_CHUNK_OVERLAP_CHARS = Some 2\<rparr>
       (ascii ''abcdefghijklmnop'')
     = Some [ascii ''abcde'', ascii ''defgh'', ascii ''ghijk'', ascii ''jklmn'', ascii ''mnop''] \<and>
   sliding_windows 5 2 (ascii ''abcdefghijklmnop'')
     [ascii ''abcde'', ascii ''defgh'', ascii ''ghijk'', ascii ''jklmn'', ascii ''mnop''] \<and>
   drop 3 (ascii ''abcde'') = take 2 (ascii ''defgh'') \<and>
   drop 3 (ascii ''defgh'') = take 2 (ascii ''ghijk'') \<and>
   drop 3 (ascii ''ghijk'') = take 2 (ascii ''jklmn'') \<and>
   drop 3 (ascii ''jklmn'') = take 2 (ascii ''mnop'')"
proof -
  let ?E = "\<lparr>RAG_CHUNK_MAX_CHARS = Some 5, RAG_CHUNK_OVERLAP_CHARS = Some 2\<rparr>"
  let ?T = "ascii ''abcdefghijklmnop''"
  let ?W = "[ascii ''abcde'', ascii ''defgh'', ascii ''ghijk'', ascii ''jklmn'', ascii ''mnop'']"
  have M: "maxLen_of ?E = 5" and O: "overlap_of ?E = 2"
    by (simp_all add: maxLen_of_def overlap_of_def)
  have h1: "0 \<le> overlap_of ?E" and h2: "overlap_of ?E < maxLen_of ?E"
    by (simp_all add: M O)
  have p: "paragraphs ?T = [?T]"
    by (simp add: ascii_def LF_def CR_def paragraphs_def js_trim_def is_ws_def)
  have long: "maxLen_of ?E < int (length ?T)"
    by (simp add: M ascii_def)
  have run: "chunkText ?E ?T = Some ?W"
    unfolding chunkText_def p M O
    by (simp add: ascii_def window_loop.simps js_slice_def)
  from chunkText_window_overlap[OF h1 h2, of ?T]
  obtain css where css: "chunkText ?E ?T = Some (concat css)"
    "list_all2 (chunks_of_part (maxLen_of ?E) (overlap_of ?E)) (paragraphs ?T) css"
    by (elim exE conjE)
  from css(2) obtain cs where one: "css = [cs]" and cs: "chunks_of_part 5 2 ?T cs"
    unfolding p M O by (auto simp: list_all2_Cons1)
  from css(1) run one have "cs = ?W" by simp
  with cs long have sw: "sliding_windows 5 2 ?T ?W"
    by (simp add: chunks_of_part_def M)
  then have w: "\<forall>i. Suc i < length ?W \<longrightarrow>
        int (length (?W ! i)) = 5 \<and> drop (nat (5 - 2)) (?W ! i) = take (nat 2) (?W ! Suc i)"
    unfolding sliding_windows_def by (elim conjE)
  have "drop 3 (ascii ''abcde'') = take 2 (ascii ''defgh'')"
    using w[rule_format, of 0] by simp
  moreover have "drop 3 (ascii ''defgh'') = take 2 (ascii ''ghijk'')"
    using w[rule_format, of 1] by simp
  moreover have "drop 3 (ascii ''ghijk'') = take 2 (ascii ''jklmn'')"
    using w[rule_format, of 2] by simp
  moreover have "drop 3 (ascii ''jklmn'') = take 2 (ascii ''mnop'')"
    using w[rule_format, of 3] by simp
  ultimately show ?thesis using h1 h2 p long run sw by blast
qed

section \<open>Properties of the arithmetic\<close>

lemma round_even_error: "\<bar>of_int (round_even x) - x\<bar> \<le> 1 / 2"
  unfolding round_even_def by (auto simp: abs_le_iff)

lemma round_even_of_int [simp]: "round_even (of_int k) = k"
  by (simp add: round_even_def)

lemma round_even_nonneg: "0 \<le> x \<Longrightarrow> 0 \<le> round_even x"
  unfolding round_even_def by auto

lemma ulp_pos: "0 < ulp x"
  by (simp add: ulp_def)

lemma ulp_normal:
  assumes "2 powr (- 1022) \<le> \<bar>x\<bar>"
  shows "ulp x \<le> 2 powr (- 52) * \<bar>x\<bar>"
proof -
  have "(0::real) < 2 powr (- 1022)" by simp
  from this assms have pos: "0 < \<bar>x\<bar>" by (rule less_le_trans)
  have "- 1022 \<le> log 2 \<bar>x\<bar>" using assms pos by (simp add: le_log_iff)
  then have "(- 1022::int) \<le> \<lfloor>log 2 \<bar>x\<bar>\<rfloor>" by (simp add: le_floor_iff)
  then have e: "max \<lfloor>log 2 \<bar>x\<bar>\<rfloor> (- 1022) = \<lfloor>log 2 \<bar>x\<bar>\<rfloor>" by simp
  have "2 powr of_int \<lfloor>log 2 \<bar>x\<bar>\<rfloor> \<le> 2 powr (log 2 \<bar>x\<bar>)"
    by (intro powr_mono) simp_all
  also have "\<dots> = \<bar>x\<bar>" using pos by simp
  finally have "2 powr of_int \<lfloor>log 2 \<bar>x\<bar>\<rfloor> \<le> \<bar>x\<bar>" .
  moreover have "ulp x = 2 powr (- 52) * 2 powr of_int \<lfloor>log 2 \<bar>x\<bar>\<rfloor>"
    unfolding ulp_def e by (simp flip: powr_add)
  ultimately show ?thesis by simp
qed

lemma round_grid_error:
  "\<bar>of_int (round_even (x / ulp x)) * ulp x - x\<bar> \<le> ulp x / 2"
proof -
  have "of_int (round_even (x / ulp x)) * ulp x - x
      = (of_int (round_even (x / ulp x)) - x / ulp x) * ulp x"
    using ulp_pos[of x] by (simp add: field_simps)
  then have "\<bar>of_int (round_even (x / ulp x)) * ulp x - x\<bar>
      = \<bar>of_int (round_even (x / ulp x)) - x / ulp x\<bar> * ulp x"
    using ulp_pos[of x] by (simp add: abs_mult)
  also have "\<dots> \<le> (1 / 2) * ulp x"
    using round_even_error[of "x / ulp x"] ulp_pos[of x] by (intro mult_right_mono) simp_all
  finally show ?thesis by simp
qed


lemma round_double_0: "round_double 0 = Fin 0"
  by (simp add: round_double_def)

lemma round_double_not_NaN: "round_double x \<noteq> NaN"
  by (simp add: round_double_def)

lemma round_double_Fin:
  assumes "round_double x = Fin y"
  shows "\<bar>y\<bar> < 2 ^ 1024" and "\<bar>y - x\<bar> \<le> ulp x / 2" and "0 \<le> x \<Longrightarrow> 0 \<le> y"
proof -
  show "\<bar>y\<bar> < 2 ^ 1024"
    using assms by (auto simp: round_double_def split: if_splits)
  show "\<bar>y - x\<bar> \<le> ulp x / 2"
    using assms round_grid_error[of x] ulp_pos[of x]
    by (auto simp: round_double_def split: if_splits)
  show "0 \<le> y" if "0 \<le> x"
  proof -
    have "0 \<le> x / ulp x" using that ulp_pos[of x] by simp
    then have "0 \<le> round_even (x / ulp x)" by (rule round_even_nonneg)
    then have "0 \<le> of_int (round_even (x / ulp x)) * ulp x"
      using ulp_pos[of x] by simp
    with assms show ?thesis by (auto simp: round_double_def split: if_splits)
  qed
qed

lemma round_double_nonneg_cases:
  assumes "0 \<le> x"
  shows "round_double x = PosInf \<or> (\<exists>y. round_double x = Fin y \<and> 0 \<le> y \<and> y < 2 ^ 1024)"
proof (cases "round_double x")
  case NaN
  then show ?thesis by (simp add: round_double_not_NaN)
next
  case NegInf
  with assms show ?thesis by (auto simp: round_double_def split: if_splits)
next
  case (Fin y)
  with round_double_Fin(1,3)[OF Fin] assms show ?thesis by auto
next
  case PosInf
  then show ?thesis by simp
qed

lemma ulp_le:
  assumes "x \<noteq> 0" "\<bar>x\<bar> \<le> 2 ^ 1023"
  shows "ulp x \<le> 2 ^ 971"
proof -
  have "log 2 \<bar>x\<bar> \<le> log 2 (2 ^ 1023)"
    using assms by (subst log_le_cancel_iff) simp_all
  also have "\<dots> = 1023" by (subst log_nat_power) simp_all
  finally have "\<lfloor>log 2 \<bar>x\<bar>\<rfloor> \<le> 1023" by (simp add: floor_le_iff)
  then have "max \<lfloor>log 2 \<bar>x\<bar>\<rfloor> (- 1022) - 52 \<le> 971" by simp
  then have "ulp x \<le> 2 powr of_int 971"
    unfolding ulp_def by (intro powr_mono) simp_all
  also have "\<dots> = 2 ^ 971" by (simp add: powr_realpow[symmetric])
  finally show ?thesis .
qed

lemma round_double_finite:
  assumes "\<bar>x\<bar> \<le> 2 ^ 1023"
  shows "\<exists>y. round_double x = Fin y"
proof (cases "x = 0")
  case True
  then show ?thesis by (simp add: round_double_0)
next
  case False
  let ?y = "of_int (round_even (x / ulp x)) * ulp x"
  have "\<bar>?y - x\<bar> \<le> ulp x / 2" by (rule round_grid_error)
  moreover have "ulp x \<le> 2 ^ 971" using False assms by (rule ulp_le)
  ultimately have "\<bar>?y\<bar> \<le> 2 ^ 1023 + 2 ^ 971 / 2" using assms by linarith
  also have "\<dots> < (2::real) ^ 1024" by simp
  finally show ?thesis using False by (simp add: round_double_def)
qed

lemma round_double_ratio:
  assumes "1 / 2 ^ 1022 \<le> x" and "round_double x = Fin y"
  shows "\<exists>r. y = x * r \<and> 1 - 1 / 2 ^ 53 \<le> r \<and> r \<le> 1 + 1 / 2 ^ 53"
proof -
  define u :: real where "u = 1 / 2 ^ 53"
  have "(0::real) < 1 / 2 ^ 1022" by simp
  from this assms(1) have pos: "0 < x" by (rule less_le_trans)
  have "2 powr (- 1022) = 1 / (2::real) ^ 1022"
    by (simp add: powr_minus powr_realpow[symmetric] divide_simps)
  with assms(1) pos have "2 powr (- 1022) \<le> \<bar>x\<bar>" by simp
  then have "ulp x \<le> 2 powr (- 52) * \<bar>x\<bar>" by (rule ulp_normal)
  moreover have "2 powr (- 52) = 1 / (2::real) ^ 52"
    by (simp add: powr_minus powr_realpow[symmetric] divide_simps)
  ultimately have "ulp x / 2 \<le> u * x"
    using pos by (simp add: u_def)
  with round_double_Fin(2)[OF assms(2)] have e: "\<bar>y - x\<bar> \<le> u * x" by simp
  have "y = x * (y / x)" using pos by simp
  moreover have "1 - u \<le> y / x" "y / x \<le> 1 + u"
    using e pos by (simp_all add: field_simps abs_le_iff)
  ultimately show ?thesis unfolding u_def by blast
qed


lemma floor_log2_pow: "\<lfloor>log 2 (2 ^ n)\<rfloor> = int n"
  by (subst log_nat_power) simp_all

lemma round_double_pow2:
  "round_double (2 ^ n) = (if n < 1024 then Fin (2 ^ n) else PosInf)"
proof -
  have e: "max \<lfloor>log 2 \<bar>2 ^ n :: real\<bar>\<rfloor> (- 1022) = int n"
    by (simp add: floor_log2_pow)
  have "ulp (2 ^ n) = 2 powr (of_int (int n) - 52)"
    unfolding ulp_def e by simp
  also have "\<dots> = 2 powr (of_int (int n)) / 2 powr 52"
    by (simp add: powr_diff)
  also have "\<dots> = 2 ^ n / 2 ^ 52"
    by (simp add: powr_realpow[symmetric])
  finally have u: "ulp (2 ^ n) = 2 ^ n / 2 ^ 52" .
  have "(2::real) ^ n / ulp (2 ^ n) = of_int (2 ^ 52)"
    unfolding u by simp
  then have "round_even (2 ^ n / ulp (2 ^ n)) = 2 ^ 52"
    by (simp only: round_even_of_int)
  then have y: "of_int (round_even (2 ^ n / ulp (2 ^ n))) * ulp (2 ^ n) = (2::real) ^ n"
    unfolding u by simp
  have "(2::real) ^ 1024 \<le> 2 ^ n \<longleftrightarrow> 1024 \<le> n"
    by (rule power_increasing_iff) simp
  then show ?thesis
    unfolding round_double_def y by simp
qed

lemma round_double_int:
  assumes "\<bar>m\<bar> < 2 ^ 53"
  shows "round_double (of_int m) = Fin (of_int m)"
proof (cases "m = 0")
  case True
  then show ?thesis by (simp add: round_double_0)
next
  case False
  let ?x = "of_int m :: real"
  define e where "e = \<lfloor>log 2 \<bar>?x\<bar>\<rfloor>"
  have one: "1 \<le> \<bar>?x\<bar>" using False by (simp flip: of_int_abs add: of_int_1_le_iff)
  have "\<bar>?x\<bar> < 2 ^ 53" using assms by (metis of_int_abs of_int_less_numeral_power_cancel_iff)
  then have "log 2 \<bar>?x\<bar> < log 2 (2 ^ 53)"
    using one by (subst log_less_cancel_iff) simp_all
  also have "\<dots> = 53" by (subst log_nat_power) simp_all
  finally have hi: "e \<le> 52" unfolding e_def by (simp add: floor_less_iff)
  have "0 \<le> log 2 \<bar>?x\<bar>" using one by simp
  then have lo: "0 \<le> e" unfolding e_def by simp
  define k where "k = nat (52 - e)"
  have "ulp ?x = 2 powr (- of_int (52 - e))"
    unfolding ulp_def e_def[symmetric] using lo by (simp add: max_def)
  also have "of_int (52 - e) = real k" unfolding k_def using hi by simp
  also have "2 powr (- real k) = 1 / 2 ^ k"
    by (simp add: powr_minus powr_realpow[symmetric] divide_simps)
  finally have u: "ulp ?x = 1 / 2 ^ k" .
  have "?x / ulp ?x = of_int (m * 2 ^ k)" unfolding u by simp
  then have "round_even (?x / ulp ?x) = m * 2 ^ k"
    by (simp only: round_even_of_int)
  then have y: "of_int (round_even (?x / ulp ?x)) * ulp ?x = ?x"
    unfolding u by simp
  have "\<bar>?x\<bar> < 2 ^ 1024"
    using \<open>\<bar>?x\<bar> < 2 ^ 53\<close> by (rule less_trans) simp
  then show ?thesis
    unfolding round_double_def y using False by simp
qed

lemma round_double_numeral:
  "round_double 1 = Fin 1" "round_double 2 = Fin 2" "round_double 4 = Fin 4"
  "round_double (- 1) = Fin (- 1)"
  using round_double_int[of 1] round_double_int[of 2] round_double_int[of 4]
    round_double_int[of "- 1"]
  by simp_all

lemma round_double_tiny:
  assumes "0 < x" and "x < 1 / 2 ^ 1075"
  shows "round_double x = Fin 0"
proof -
  have "log 2 x < log 2 (1 / 2 ^ 1075)"
    using assms by (subst log_less_cancel_iff) simp_all
  also have "(1::real) / 2 ^ 1075 = 2 powr (- 1075)"
    by (simp add: powr_minus powr_realpow[symmetric] divide_simps)
  also have "log 2 (2 powr (- 1075)) = - 1075" by simp
  finally have "\<lfloor>log 2 \<bar>x\<bar>\<rfloor> < - 1075" using assms(1) by (simp add: floor_less_iff)
  then have "max \<lfloor>log 2 \<bar>x\<bar>\<rfloor> (- 1022) = - 1022" by simp
  then have "ulp x = 2 powr (- 1074)" unfolding ulp_def by simp
  also have "\<dots> = 1 / 2 ^ 1074"
    by (simp add: powr_minus powr_realpow[symmetric] divide_simps)
  finally have u: "ulp x = 1 / 2 ^ 1074" .
  have q: "x / ulp x = x * 2 ^ 1074" unfolding u by simp
  have "x * 2 ^ 1074 < (1 / 2 ^ 1075) * 2 ^ 1074"
    using assms(2) by (intro mult_strict_right_mono) simp_all
  then have half: "x / ulp x < 1 / 2" unfolding q by simp
  have pos: "0 < x / ulp x" unfolding q using assms(1) by simp
  from half have "x / ulp x < 1" by linarith
  with pos have "\<lfloor>x / ulp x\<rfloor> = 0" by (simp only: floor_eq_iff) simp
  with half have "round_even (x / ulp x) = 0" by (simp add: round_even_def)
  then show ?thesis using assms(1) by (simp add: round_double_def)
qed

section \<open>Properties of cosineSim\<close>

lemma foldl_invariant:
  assumes "P s" and "\<And>s i. P s \<Longrightarrow> i \<in> set xs \<Longrightarrow> P (f s i)"
  shows "P (foldl f s xs)"
  using assms by (induction xs arbitrary: s) simp_all

lemma js_mul_self:
  "js_mul t t = NaN \<or> js_mul t t = PosInf \<or> (\<exists>d. js_mul t t = Fin d \<and> 0 \<le> d \<and> d < 2 ^ 1024)"
proof (cases t)
  case (Fin x)
  have "0 \<le> x * x" by simp
  from round_double_nonneg_cases[OF this] Fin show ?thesis by auto
qed simp_all

lemma js_add_nonneg:
  assumes "s = NaN \<or> s = PosInf \<or> (\<exists>d. s = Fin d \<and> 0 \<le> d \<and> d < 2 ^ 1024)"
    and "t = NaN \<or> t = PosInf \<or> (\<exists>d. t = Fin d \<and> 0 \<le> d \<and> d < 2 ^ 1024)"
  shows "js_add s t = NaN \<or> js_add s t = PosInf \<or>
         (\<exists>d. js_add s t = Fin d \<and> 0 \<le> d \<and> d < 2 ^ 1024)"
proof (cases "\<exists>x y. s = Fin x \<and> t = Fin y")
  case True
  then obtain x y where xy: "s = Fin x" "t = Fin y" by blast
  with assms have "0 \<le> x + y" by simp
  from round_double_nonneg_cases[OF this] xy show ?thesis by auto
next
  case False
  with assms show ?thesis by (cases s; cases t) auto
qed

text \<open>
  The squared norm as the code computes it is NaN, or \<open>Infinity\<close>, or a finite double
  that is not negative.
\<close>

lemma dot_self:
  "dot w a a = NaN \<or> dot w a a = PosInf \<or> (\<exists>d. dot w a a = Fin d \<and> 0 \<le> d \<and> d < 2 ^ 1024)"
  unfolding dot_def
  by (rule foldl_invariant) (simp, rule js_add_nonneg, assumption, rule js_mul_self)

lemma at_index_replicate: "i < n \<Longrightarrow> at_index (replicate n x) i = Some x"
  by (simp add: at_index_def)

lemma dot_zero_vector: "dot w (replicate n (JNum (Fin 0))) (replicate n (JNum (Fin 0))) = Fin 0"
  unfolding dot_def
  by (rule foldl_invariant) (simp_all add: at_index_replicate ToNumber_def round_double_0)

lemma norm_zero_vector: "norm_js w (replicate n (JNum (Fin 0))) = Fin 0"
  by (simp add: norm_js_def dot_zero_vector round_double_0)

lemma js_div_NaN: "js_div a NaN = NaN"
  by (cases a) simp_all

lemma sqrt_bounds:
  assumes "0 \<le> d"
  shows "min d 1 \<le> sqrt d" and "sqrt d \<le> max d 1"
proof -
  show "min d 1 \<le> sqrt d"
  proof (cases "d \<le> 1")
    case True
    then have "sqrt d \<le> 1" by simp
    then have "sqrt d * sqrt d \<le> sqrt d * 1"
      using assms by (intro mult_left_mono) simp_all
    with assms True show ?thesis by simp
  next
    case False
    then have "1 \<le> sqrt d" by simp
    with False show ?thesis by simp
  qed
  show "sqrt d \<le> max d 1"
  proof (cases "d \<le> 1")
    case True
    then have "sqrt d \<le> 1" by simp
    with True show ?thesis by simp
  next
    case False
    then have "1 \<le> sqrt d" by simp
    then have "sqrt d * 1 \<le> sqrt d * sqrt d"
      by (intro mult_left_mono) simp_all
    with assms False show ?thesis by simp
  qed
qed

lemma norm_finite:
  assumes "dot w v v = Fin d"
  shows "\<exists>n. norm_js w v = Fin n \<and> 0 \<le> n"
proof -
  from dot_self[of w v] assms have d: "0 \<le> d" "d < 2 ^ 1024" by simp_all
  have "sqrt d \<le> max d 1" using d(1) by (rule sqrt_bounds)
  also have "\<dots> \<le> 2 ^ 1024" using d(2) by simp
  finally have "sqrt d \<le> 2 ^ 1024" .
  have "sqrt d < sqrt (2 ^ 1024)" using d(2) by (simp only: real_sqrt_less_iff)
  also have "(2::real) ^ 1024 = (2 ^ 512)\<^sup>2" by simp
  also have "sqrt ((2 ^ 512)\<^sup>2) = (2::real) ^ 512" by (simp only: real_sqrt_abs) simp
  finally have "\<bar>sqrt d\<bar> \<le> 2 ^ 1023" using d(1) by simp
  then obtain n where n: "round_double (sqrt d) = Fin n"
    using round_double_finite by blast
  have "0 \<le> sqrt d" using d(1) by simp
  with round_double_Fin(3)[OF n] have "0 \<le> n" by simp
  with n assms d(1) show ?thesis by (simp add: norm_js_def)
qed

lemma norm_not_finite:
  assumes "\<nexists>d. dot w v v = Fin d"
  shows "norm_js w v = NaN \<or> norm_js w v = PosInf"
  using dot_self[of w v] assms by (auto simp: norm_js_def)

lemma cosineSim_zero:
  "cosineSim w v (replicate n (JNum (Fin 0)))
   = (if \<exists>d. dot w v v = Fin d then Fin 0 else NaN)"
proof (cases "\<exists>d. dot w v v = Fin d")
  case True
  then obtain d where "dot w v v = Fin d" ..
  from norm_finite[OF this] obtain nv where "norm_js w v = Fin nv" by blast
  then have "cosineSim w v (replicate n (JNum (Fin 0))) = Fin 0"
    by (simp add: cosineSim_def norm_zero_vector round_double_0)
  with True show ?thesis by simp
next
  case False
  from norm_not_finite[OF False]
  have "js_mul (norm_js w v) (norm_js w (replicate n (JNum (Fin 0)))) = NaN"
    by (auto simp: norm_zero_vector)
  then have "cosineSim w v (replicate n (JNum (Fin 0))) = NaN"
    by (simp add: cosineSim_def js_div_NaN)
  with False show ?thesis by simp
qed

lemma unit_roundoff_bounds:
  fixes rn rp rc :: real
  assumes "1 - 1 / 2 ^ 53 \<le> rn" "rn \<le> 1 + 1 / 2 ^ 53"
    and "1 - 1 / 2 ^ 53 \<le> rp" "rp \<le> 1 + 1 / 2 ^ 53"
    and "1 - 1 / 2 ^ 53 \<le> rc" "rc \<le> 1 + 1 / 2 ^ 53"
  shows "\<bar>rc / (rn * rn * rp) - 1\<bar> \<le> 1 / 2 ^ 50"
    and "1 / 8 \<le> 1 / (rn * rn * rp)" and "1 / (rn * rn * rp) \<le> 8"
    and "1 / 2 \<le> rn * rn" and "rn * rn \<le> 2"
proof -
  define L :: real where "L = 1 - 1 / 2 ^ 53"
  define U :: real where "U = 1 + 1 / 2 ^ 53"
  have L: "0 < L" "1 / 2 \<le> L * L" "1 / 8 \<le> L * L * L" and U: "U * U \<le> 2" "U * U * U \<le> 8" "0 < U"
    by (simp_all add: L_def U_def)
  note a = assms[folded L_def U_def]
  have pos: "0 < rn" "0 < rp" "0 < rc" using a L(1) by linarith+
  have ll: "L * L \<le> rn * rn" using a L(1) by (intro mult_mono) simp_all
  have uu: "rn * rn \<le> U * U" using a pos by (intro mult_mono) simp_all
  have lll: "L * L * L \<le> rn * rn * rp" using ll a L(1) by (intro mult_mono) simp_all
  have uuu: "rn * rn * rp \<le> U * U * U" using uu a pos by (intro mult_mono) simp_all
  have p3: "0 < rn * rn * rp" using pos by simp
  have l3: "0 < L * L * L" using L(1) by simp
  show "1 / 2 \<le> rn * rn" using ll L(2) by simp
  show "rn * rn \<le> 2" using uu U(1) by simp
  have "1 / (rn * rn * rp) \<le> 1 / (L * L * L)"
    using lll l3 by (intro divide_left_mono) simp_all
  also have "\<dots> \<le> 8" using L(3) l3 by (simp add: field_simps)
  finally show "1 / (rn * rn * rp) \<le> 8" .
  have "1 / 8 \<le> 1 / (U * U * U)" using U by (simp add: field_simps)
  also have "\<dots> \<le> 1 / (rn * rn * rp)"
    using uuu p3 by (intro divide_left_mono) simp_all
  finally show "1 / 8 \<le> 1 / (rn * rn * rp)" .
  have "rc / (rn * rn * rp) \<le> U / (L * L * L)"
    using a pos lll l3 by (intro frac_le) simp_all
  also have "\<dots> \<le> 1 + 1 / 2 ^ 50" by (simp add: L_def U_def)
  finally have hi: "rc / (rn * rn * rp) \<le> 1 + 1 / 2 ^ 50" .
  have "1 - 1 / 2 ^ 50 \<le> L / (U * U * U)" by (simp add: L_def U_def)
  also have "\<dots> \<le> rc / (rn * rn * rp)"
    using a L(1) uuu p3 by (intro frac_le) simp_all
  finally have lo: "1 - 1 / 2 ^ 50 \<le> rc / (rn * rn * rp)" .
  have "rc / (rn * rn * rp) - 1 \<le> 1 / 2 ^ 50" using hi by linarith
  moreover have "- (rc / (rn * rn * rp) - 1) \<le> 1 / 2 ^ 50" using lo by linarith
  ultimately show "\<bar>rc / (rn * rn * rp) - 1\<bar> \<le> 1 / 2 ^ 50"
    by (simp only: abs_le_iff)
qed

lemma cosineSim_self:
  assumes d: "dot w v v = Fin d" and lo: "1 / 2 ^ 1021 \<le> d" and hi: "d \<le> 2 ^ 1022"
  shows "\<exists>c. cosineSim w v v = Fin c \<and> \<bar>c - 1\<bar> \<le> 1 / 2 ^ 50"
proof -
  have dpos: "0 < d" using lo by (rule less_le_trans[rotated]) simp
  define a where "a = sqrt d"
  have apos: "0 < a" and aa: "a * a = d" using dpos by (simp_all add: a_def)
  have "(1::real) / 2 ^ 1022 \<le> min d 1" using lo by simp
  also have "\<dots> \<le> a" unfolding a_def using dpos by (intro sqrt_bounds) simp
  finally have alo: "1 / 2 ^ 1022 \<le> a" .
  have "a \<le> max d 1" unfolding a_def using dpos by (intro sqrt_bounds) simp
  also have "\<dots> \<le> 2 ^ 1023" using hi by simp
  finally have "\<bar>a\<bar> \<le> 2 ^ 1023" using apos by simp
  then obtain nn where nn: "round_double a = Fin nn"
    using round_double_finite by blast
  from round_double_ratio[OF alo nn] obtain rn where
    rn: "nn = a * rn" "1 - 1 / 2 ^ 53 \<le> rn" "rn \<le> 1 + 1 / 2 ^ 53" by blast
  have norm: "norm_js w v = Fin nn"
    using d dpos nn by (simp add: norm_js_def a_def)
  have one: "1 - 1 / 2 ^ 53 \<le> (1::real)" "(1::real) \<le> 1 + 1 / 2 ^ 53" by simp_all
  note b0 = unit_roundoff_bounds(4,5)[OF rn(2,3) one one]
  have sq: "nn * nn = d * (rn * rn)" unfolding rn(1) aa[symmetric] by simp
  have "1 / 2 ^ 1022 = (1 / 2 ^ 1021) * (1 / 2 :: real)" by simp
  also have "\<dots> \<le> d * (rn * rn)"
    using lo b0(1) by (intro mult_mono) simp_all
  finally have sqlo: "1 / 2 ^ 1022 \<le> nn * nn" unfolding sq .
  have "d * (rn * rn) \<le> 2 ^ 1022 * 2"
    using hi b0(2) dpos by (intro mult_mono) simp_all
  then have "\<bar>nn * nn\<bar> \<le> 2 ^ 1023" unfolding sq using dpos b0(1) by simp
  then obtain p where p: "round_double (nn * nn) = Fin p"
    using round_double_finite by blast
  from round_double_ratio[OF sqlo p] obtain rp where
    rp: "p = nn * nn * rp" "1 - 1 / 2 ^ 53 \<le> rp" "rp \<le> 1 + 1 / 2 ^ 53" by blast
  note b = unit_roundoff_bounds(2,3)[OF rn(2,3) rp(2,3) one]
  have "0 < 1 / (rn * rn * rp)" using b(1) by linarith
  then have rpos: "0 < rn * rn * rp" by (simp only: zero_less_divide_1_iff)
  have pd: "p = d * (rn * rn * rp)" unfolding rp(1) sq by simp
  have ppos: "0 < p" unfolding pd using dpos rpos by simp
  have quot: "d / p = 1 / (rn * rn * rp)" unfolding pd using dpos by simp
  have qlo: "1 / 2 ^ 1022 \<le> d / p"
    unfolding quot using b(1) by (rule order_trans[rotated]) simp
  have "\<bar>d / p\<bar> \<le> 2 ^ 1023"
    unfolding quot using b(2) rpos by simp
  then obtain c where c: "round_double (d / p) = Fin c"
    using round_double_finite by blast
  from round_double_ratio[OF qlo c] obtain rc where
    rc: "c = d / p * rc" "1 - 1 / 2 ^ 53 \<le> rc" "rc \<le> 1 + 1 / 2 ^ 53" by blast
  have "c = rc / (rn * rn * rp)" unfolding rc(1) quot by simp
  with unit_roundoff_bounds(1)[OF rn(2,3) rp(2,3) rc(2,3)]
  have "\<bar>c - 1\<bar> \<le> 1 / 2 ^ 50" by simp
  moreover have "cosineSim w v v = Fin c"
    using norm p ppos d c by (simp add: cosineSim_def)
  ultimately show ?thesis by blast
qed

lemmas cosine_defs = cosineSim_def norm_js_def dot_def at_index_def ToNumber_def

lemma sample_cosineSim:
  "cosineSim sample_world [JNum (Fin 1)] [JNum (Fin 0)] = Fin 0"
  "cosineSim sample_world [JNum (Fin 1)] [JNum (Fin (- 1))] = Fin (- 1)"
  "cosineSim sample_world [JNum (Fin 1)] [JNum (Fin 2)] = Fin 1"
  by (simp_all add: cosine_defs round_double_0 round_double_numeral)

lemma sample_dot: "dot sample_world [JNum (Fin 2)] [JNum (Fin 2)] = Fin 4"
  by (simp add: cosine_defs round_double_0 round_double_numeral)

text \<open>
  Claim C9 as stated fails on vectors whose squared norm leaves the range of the
  doubles. For \<open>v = [2^700]\<close> the square \<open>2^1400\<close> overflows: \<open>norm(v)\<close> is \<open>Infinity\<close>,
  \<open>Infinity * 0\<close> is NaN, which the guard \<open>denom === 0\<close> lets pass, and both
  \<open>cosineSim(v, [0])\<close> and \<open>cosineSim(v, v)\<close> are NaN. For the non-zero \<open>v = [2^(-600)]\<close> the
  square underflows to 0, the guard holds, and \<open>cosineSim(v, v)\<close> is 0.
\<close>

theorem cosineSim_overflow_counterexample:
  "cosineSim sample_world [JNum (Fin (2 ^ 700))] [JNum (Fin 0)] = NaN \<and>
   cosineSim sample_world [JNum (Fin (2 ^ 700))] [JNum (Fin (2 ^ 700))] = NaN \<and>
   cosineSim sample_world [JNum (Fin (1 / 2 ^ 600))] [JNum (Fin (1 / 2 ^ 600))] = Fin 0"
proof -
  have big: "round_double (2 ^ 1400) = PosInf"
    using round_double_pow2[of 1400] by simp
  have "round_double (1 / 2 ^ 1200) = Fin 0"
    by (rule round_double_tiny) simp_all
  then have tiny: "round_double (1 / 2 ^ 600 * (1 / 2 ^ 600)) = Fin 0"
    by (simp flip: power_add)
  have 1: "cosineSim sample_world [JNum (Fin (2 ^ 700))] [JNum (Fin 0)] = NaN"
    unfolding cosine_defs by (simp add: big round_double_0 del: power_numeral)
  have 2: "cosineSim sample_world [JNum (Fin (2 ^ 700))] [JNum (Fin (2 ^ 700))] = NaN"
    unfolding cosine_defs by (simp add: big round_double_0 del: power_numeral)
  have 3: "cosineSim sample_world [JNum (Fin (1 / 2 ^ 600))] [JNum (Fin (1 / 2 ^ 600))] = Fin 0"
    unfolding cosine_defs using tiny by (simp add: round_double_0 del: power_numeral)
  from 1 2 3 show ?thesis by (intro conjI)
qed

text \<open>
  Claim C9, amended. For every vector \<open>v\<close> and every zero vector, of any length,
  \<open>cosineSim(v, zero)\<close> is 0 when the squared norm of \<open>v\<close>, as \<open>dot(v, v)\<close> computes it in
  doubles, is finite, and NaN when it is not (it is \<open>Infinity\<close> or NaN). For every vector
  \<open>v\<close> whose computed squared norm lies between \<open>2^(-1021)\<close> and \<open>2^1022\<close>, \<open>cosineSim(v, v)\<close>
  is a double within \<open>2^(-50)\<close> of 1.
\<close>

theorem cosineSim_zero_and_self:
  "cosineSim w v (replicate n (JNum (Fin 0)))
     = (if \<exists>d. dot w v v = Fin d then Fin 0 else NaN) \<and>
   (\<forall>d. dot w v v = Fin d \<and> 1 / 2 ^ 1021 \<le> d \<and> d \<le> 2 ^ 1022 \<longrightarrow>
        (\<exists>c. cosineSim w v v = Fin c \<and> \<bar>c - 1\<bar> \<le> 1 / 2 ^ 50))"
  using cosineSim_zero[of w v n] cosineSim_self[of w v] by blast

theorem cosineSim_zero_and_self_witness:
  "dot sample_world [JNum (Fin 2)] [JNum (Fin 2)] = Fin 4 \<and>
   (1::real) / 2 ^ 1021 \<le> 4 \<and> (4::real) \<le> 2 ^ 1022 \<and>
   cosineSim sample_world [JNum (Fin 2)] [JNum (Fin 0)] = Fin 0 \<and>
   (\<exists>c. cosineSim sample_world [JNum (Fin 2)] [JNum (Fin 2)] = Fin c \<and> \<bar>c - 1\<bar> \<le> 1 / 2 ^ 50)"
proof -
  note t = cosineSim_zero_and_self[of sample_world "[JNum (Fin 2)]" 1]
  have b: "(1::real) / 2 ^ 1021 \<le> 4" "(4::real) \<le> 2 ^ 1022" by simp_all
  from t have "cosineSim sample_world [JNum (Fin 2)] (replicate 1 (JNum (Fin 0)))
      = (if \<exists>d. dot sample_world [JNum (Fin 2)] [JNum (Fin 2)] = Fin d then Fin 0 else NaN)"
    by (rule conjunct1)
  with sample_dot
  have "cosineSim sample_world [JNum (Fin 2)] (replicate 1 (JNum (Fin 0))) = Fin 0"
    by simp
  then have z: "cosineSim sample_world [JNum (Fin 2)] [JNum (Fin 0)] = Fin 0" by simp
  from t sample_dot b
  have "\<exists>c. cosineSim sample_world [JNum (Fin 2)] [JNum (Fin 2)] = Fin c \<and> \<bar>c - 1\<bar> \<le> 1 / 2 ^ 50"
    by blast
  with sample_dot b z show ?thesis by (intro conjI)
qed

section \<open>The handlers on the sample requests\<close>

lemmas sample_defs =
  sample_world_def sample_store_def sample_row_def user_says_def embedding_ok_def
  completion_ok_def empty_chat_def hi_chat_def blank_chat_def rag_chat_def two_paragraphs_def
  timeout_world_def late_headers_world_def slow_body_world_def embedding_down_world_def
  embedding_garbled_world_def second_embedding_fails_world_def second_insert_fails_world_def
  commit_fails_world_def looping_world_def long_paragraph_def default_chunk_env_def
  hi_completion_def rag_completion_def
  rag_citations_def internal_error_reply_def

lemmas schema_defs =
  ChatRequestSchema_def RagIngestSchema_def parse_messages_def parse_message_def
  optional_field_def number_between_def positive_int_upto_def boolean_def

lemmas handler_defs =
  retrieval_def completion_def completion_fetch_def timeoutMs_def timer_delay_def
  completion_request_of_def
  context_instruction_def lastUser_def topK_def apiKey_def strip_quotes_def is_quote_def
  js_trim_def is_ws_def res_ok_def embedText_def internal_error_def

lemma empty_chat_parses:
  "ChatRequestSchema empty_chat
   = Some \<lparr>messages = [], temperature = None, max_tokens = None, use_rag = None, top_k = None\<rparr>"
  by (simp add: sample_defs schema_defs ascii_def)

lemma hi_chat_parses:
  "ChatRequestSchema hi_chat
   = Some \<lparr>messages = [\<lparr>role = ascii ''user'', content = ascii ''hi''\<rparr>], temperature = None,
           max_tokens = None, use_rag = None, top_k = None\<rparr>"
  by (simp add: sample_defs schema_defs ascii_def)

lemma rag_chat_parses:
  "ChatRequestSchema rag_chat
   = Some \<lparr>messages = [\<lparr>role = ascii ''user'', content = ascii ''hi''\<rparr>], temperature = None,
           max_tokens = None, use_rag = Some True, top_k = Some 2\<rparr>"
  by (simp add: sample_defs schema_defs ascii_def)

lemma blank_chat_rejected: "ChatRequestSchema blank_chat = None"
  by (simp add: sample_defs schema_defs ascii_def)

lemma two_paragraphs_parses:
  "RagIngestSchema two_paragraphs
   = Some \<lparr>ingest_source = ascii ''doc2'', ingest_text = ascii ''A.'' @ [LF, LF] @ ascii ''B.''\<rparr>"
  by (simp add: sample_defs schema_defs ascii_def)

lemma sample_apiKey:
  "apiKey sample_world = Some (ascii ''sk-1'')"
  "apiKey timeout_world = Some (ascii ''sk-1'')"
  "apiKey embedding_down_world = Some (ascii ''sk-1'')"
  "apiKey embedding_garbled_world = Some (ascii ''sk-1'')"
  "apiKey second_embedding_fails_world = Some (ascii ''sk-1'')"
  "apiKey late_headers_world = Some (ascii ''sk-1'')"
  "apiKey slow_body_world = Some (ascii ''sk-1'')"
  "apiKey second_insert_fails_world = Some (ascii ''sk-1'')"
  "apiKey commit_fails_world = Some (ascii ''sk-1'')"
  "apiKey looping_world = Some (ascii ''sk-1'')"
  by (simp_all add: sample_defs handler_defs ascii_def)

lemma two_paragraphs_chunks:
  "chunkText default_chunk_env (ascii ''A.'' @ [LF, LF] @ ascii ''B.'')
   = Some [ascii ''A.'', ascii ''B.'']"
  by (simp add: ascii_def LF_def CR_def chunkText_def paragraphs_def js_trim_def is_ws_def
      maxLen_of_def overlap_of_def default_chunk_env_def)

lemma long_paragraph_parses:
  "RagIngestSchema long_paragraph
   = Some \<lparr>ingest_source = ascii ''doc3'', ingest_text = replicate 101 0x61\<rparr>"
  by (simp add: long_paragraph_def RagIngestSchema_def ascii_def)

lemma long_paragraph_loops:
  "chunkText (chunk_settings looping_world) (replicate 101 0x61) = None"
proof -
  have p: "paragraphs (replicate 101 (0x61 :: code_unit)) = [replicate 101 0x61]"
    by (rule paragraphs_replicate) (simp_all add: is_ws_def)
  have "window_loop 100 120 (replicate 101 (0x61 :: code_unit)) 0 [] = None"
    by (rule window_loop_diverges) simp_all
  then show ?thesis
    by (simp add: chunkText_def p maxLen_of_def overlap_of_def looping_world_def)
qed

lemma sample_lastUser: "lastUser [\<lparr>role = ascii ''user'', content = ascii ''hi''\<rparr>] = Some (ascii ''hi'')"
  by (simp add: lastUser_def)

lemma sample_embedText:
  "embedText sample_world n input = Inr [JNum (Fin 1)]"
  "embedText embedding_down_world n input = Inl (Js_Error (ascii ''boom''))"
  "embedText embedding_garbled_world n input
   = Inl (Js_Error (ascii ''Embedding upstream returned an invalid response''))"
  "embedText second_embedding_fails_world 0 input = Inr [JNum (Fin 1)]"
  "embedText second_embedding_fails_world 1 input = Inl Fetch_TypeError"
  "embedText second_insert_fails_world n input = Inr [JNum (Fin 1)]"
  "embedText commit_fails_world n input = Inr [JNum (Fin 1)]"
  by (simp_all add: sample_defs embedText_def res_ok_def ascii_def)

lemma sample_JSON_parse:
  "JSON_parse sample_world (ascii ''[0]'') = Some (JArr [JNum (Fin 0)])"
  "JSON_parse sample_world (ascii ''[-1]'') = Some (JArr [JNum (Fin (- 1))])"
  "JSON_parse sample_world (ascii ''[2]'') = Some (JArr [JNum (Fin 2)])"
  by (simp_all add: sample_world_def ascii_def)

lemma sample_retrieve:
  "retrieve sample_world [JNum (Fin 1)] (rag_chunks sample_store) 2
   = [\<lparr>scored_row = sample_row 3 2 ''gamma'' ''[2]'', score = Fin 1\<rparr>,
      \<lparr>scored_row = sample_row 1 0 ''alpha'' ''[0]'', score = Fin 0\<rparr>]"
  by (simp add: retrieve_def score_row_def js_sort_def js_slice_def sample_store_def
      sample_row_def sample_JSON_parse sample_cosineSim)

lemma empty_chat_answered:
  "chat_handler sample_world sample_store empty_chat
   = (\<lparr>status_code = 200,
       reply = Chat_reply (ascii ''hello'') (ascii ''id-1'') (ascii ''deepseek-chat'') []\<rparr>,
      [Completion_call
         \<lparr>cr_model = ascii ''deepseek-chat'', cr_temperature = None, cr_max_tokens = None,
          cr_messages = [\<lparr>role = ascii ''system'', content = ascii ''Be brief.''\<rparr>]\<rparr>])"
  by (simp add: chat_handler_def empty_chat_parses sample_apiKey)
     (simp add: sample_defs handler_defs ascii_def)

lemma hi_chat_times_out:
  "chat_handler timeout_world sample_store hi_chat
   = (internal_error_reply,
      [Completion_call
         hi_completion])"
  by (simp add: chat_handler_def hi_chat_parses sample_apiKey)
     (simp add: sample_defs handler_defs ascii_def)

lemma hi_chat_late_headers:
  "chat_handler late_headers_world sample_store hi_chat
   = (internal_error_reply, [Completion_call hi_completion])"
  by (simp add: chat_handler_def hi_chat_parses sample_apiKey)
     (simp add: sample_defs handler_defs ascii_def)

lemma hi_chat_slow_body:
  "chat_handler slow_body_world sample_store hi_chat
   = (\<lparr>status_code = 200,
       reply = Chat_reply (ascii ''hello'') (ascii ''id-1'') (ascii ''deepseek-chat'') []\<rparr>,
      [Completion_call hi_completion])"
  by (simp add: chat_handler_def hi_chat_parses sample_apiKey)
     (simp add: sample_defs handler_defs ascii_def)

lemma rag_chat_embedding_down:
  "chat_handler embedding_down_world sample_store rag_chat
   = (internal_error_reply,
      [Embedding_call (ascii ''hi'')])"
  "chat_handler embedding_garbled_world sample_store rag_chat
   = (internal_error_reply,
      [Embedding_call (ascii ''hi'')])"
  by (simp_all add: chat_handler_def rag_chat_parses sample_apiKey retrieval_def sample_lastUser
      sample_embedText)
     (simp_all add: sample_defs internal_error_def ascii_def)

lemma rag_chat_answered:
  "chat_handler sample_world sample_store rag_chat
   = (\<lparr>status_code = 200,
       reply = Chat_reply (ascii ''hello'') (ascii ''id-1'') (ascii ''deepseek-chat'')
                 rag_citations\<rparr>,
      [Embedding_call (ascii ''hi''),
       Completion_call
         rag_completion])"
  by (simp add: chat_handler_def rag_chat_parses sample_apiKey retrieval_def sample_lastUser
      sample_embedText topK_def sample_retrieve)
     (simp add: sample_defs completion_def completion_fetch_def timeoutMs_def timer_delay_def
      completion_request_of_def context_instruction_def context_block_def citation_of_def
      res_ok_def show_int_def ascii_def LF_def)

section \<open>Properties of the retrieval step\<close>

lemma js_slice_take: "0 \<le> k \<Longrightarrow> js_slice xs 0 k = take (nat k) xs"
  by (simp add: js_slice_def Let_def min_def)

lemma js_sub_sign:
  "a \<noteq> NaN \<Longrightarrow> b \<noteq> NaN \<Longrightarrow> js_lt (js_sub b a) (Fin 0) = js_lt b a"
  by (cases a; cases b) simp_all

lemma js_ge_not_lt: "a \<noteq> NaN \<Longrightarrow> b \<noteq> NaN \<Longrightarrow> js_ge a b = (\<not> js_lt a b)"
  by (cases a; cases b) simp_all

lemma js_ge_trans: "js_ge a b \<Longrightarrow> js_ge b c \<Longrightarrow> js_ge a c"
  by (cases a; cases b; cases c) simp_all

lemma js_lt_ge: "js_lt b a \<Longrightarrow> js_ge a b"
  by (cases a; cases b) simp_all

lemma js_lt_ge_trans: "js_lt b a \<Longrightarrow> js_ge b c \<Longrightarrow> js_lt c a"
  by (cases a; cases b; cases c) simp_all

lemma js_lt_irrefl: "\<not> js_lt a a"
  by (cases a) simp_all

lemma js_ge_not_NaN: "js_ge a b \<Longrightarrow> a \<noteq> NaN"
  by (cases a) simp_all

lemma set_js_insert: "set (js_insert cmp x ys) = insert x (set ys)"
  by (induction ys) auto

lemma length_js_insert: "length (js_insert cmp x ys) = Suc (length ys)"
  by (induction ys) auto

lemma js_sort_snoc: "js_sort cmp (xs @ [x]) = js_insert cmp x (js_sort cmp xs)"
  by (simp add: js_sort_def)

lemma set_js_sort: "set (js_sort cmp xs) = set xs"
  by (induction xs rule: rev_induct) (simp_all add: js_sort_snoc set_js_insert, simp add: js_sort_def)

lemma sorted_js_insert:
  assumes "score x \<noteq> NaN" "\<forall>y\<in>set ys. score y \<noteq> NaN" "sorted_wrt score_ge ys"
  shows "sorted_wrt score_ge (js_insert by_score x ys)"
  using assms(2,3)
proof (induction ys)
  case Nil
  show ?case by simp
next
  case (Cons y ys)
  from Cons.prems have y: "score y \<noteq> NaN" and tail: "\<forall>z\<in>set ys. js_ge (score y) (score z)"
    by simp_all
  show ?case
  proof (cases "js_lt (score y) (score x)")
    case True
    then have "js_ge (score x) (score y)" by (rule js_lt_ge)
    moreover from this tail have "\<forall>z\<in>set ys. js_ge (score x) (score z)"
      by (blast intro: js_ge_trans)
    ultimately show ?thesis
      using Cons.prems True assms(1) y by (simp add: js_sub_sign)
  next
    case False
    then have "js_ge (score y) (score x)" using assms(1) y by (simp add: js_ge_not_lt)
    moreover have "sorted_wrt score_ge (js_insert by_score x ys)"
      using Cons by simp
    ultimately show ?thesis
      using False tail assms(1) y by (simp add: js_sub_sign set_js_insert)
  qed
qed

lemma sorted_js_sort:
  assumes "\<forall>x\<in>set xs. score x \<noteq> NaN"
  shows "sorted_wrt score_ge (js_sort by_score xs)"
  using assms
proof (induction xs rule: rev_induct)
  case Nil
  show ?case by (simp add: js_sort_def)
next
  case (snoc x xs)
  then show ?case
    by (simp add: js_sort_snoc sorted_js_insert set_js_sort)
qed

lemma filter_js_insert_other:
  "\<not> Q x \<Longrightarrow> filter Q (js_insert cmp x ys) = filter Q ys"
  by (induction ys) auto

lemma filter_js_insert_tie:
  assumes "score x \<noteq> NaN" "\<forall>y\<in>set ys. score y \<noteq> NaN" "sorted_wrt score_ge ys"
  shows "filter (\<lambda>z. score z = score x) (js_insert by_score x ys)
         = filter (\<lambda>z. score z = score x) ys @ [x]"
  using assms(2,3)
proof (induction ys)
  case Nil
  show ?case by simp
next
  case (Cons y ys)
  from Cons.prems have y: "score y \<noteq> NaN" and tail: "\<forall>z\<in>set ys. js_ge (score y) (score z)"
    by simp_all
  show ?case
  proof (cases "js_lt (score y) (score x)")
    case True
    have "score z \<noteq> score x" if "z \<in> set (y # ys)" for z
    proof
      assume eq: "score z = score x"
      have "js_lt (score z) (score x)"
      proof (cases "z = y")
        case True
        with \<open>js_lt (score y) (score x)\<close> show ?thesis by simp
      next
        case False
        with that tail have "js_ge (score y) (score z)" by simp
        with \<open>js_lt (score y) (score x)\<close> show ?thesis by (rule js_lt_ge_trans)
      qed
      with eq show False by (simp add: js_lt_irrefl)
    qed
    then have "filter (\<lambda>z. score z = score x) (y # ys) = []"
      by (simp only: filter_empty_conv) blast
    with True assms(1) y show ?thesis by (simp add: js_sub_sign)
  next
    case False
    have "filter (\<lambda>z. score z = score x) (js_insert by_score x ys)
          = filter (\<lambda>z. score z = score x) ys @ [x]"
      using Cons by simp
    with False assms(1) y show ?thesis by (simp add: js_sub_sign)
  qed
qed

lemma js_sort_stable:
  assumes "\<forall>x\<in>set xs. score x \<noteq> NaN"
  shows "filter (\<lambda>z. score z = s) (js_sort by_score xs) = filter (\<lambda>z. score z = s) xs"
  using assms
proof (induction xs rule: rev_induct)
  case Nil
  show ?case by (simp add: js_sort_def)
next
  case (snoc x xs)
  then have IH: "filter (\<lambda>z. score z = s) (js_sort by_score xs) = filter (\<lambda>z. score z = s) xs"
    and nn: "\<forall>y\<in>set (js_sort by_score xs). score y \<noteq> NaN" and x: "score x \<noteq> NaN"
    by (simp_all add: set_js_sort)
  have sorted: "sorted_wrt score_ge (js_sort by_score xs)"
    using snoc.prems by (intro sorted_js_sort) simp
  show ?case
  proof (cases "score x = s")
    case True
    with filter_js_insert_tie[OF x nn sorted] IH show ?thesis
      by (simp add: js_sort_snoc)
  next
    case False
    with IH show ?thesis
      by (simp add: js_sort_snoc filter_js_insert_other)
  qed
qed

text \<open>
  Claim C2: for every query vector, stored rows and \<open>k \<ge> 1\<close> the retrieval step returns at
  most \<open>k\<close> pairs; their scores are non-increasing; every pair returned is a stored row
  with its score, and the score is non-negative; pairs of equal score keep the order of
  the scan (the returned pairs of any one score are the first ones of that score in scan
  order). This holds whatever scores \<open>cosineSim\<close> and \<open>JSON.parse\<close> give the rows.
\<close>

theorem retrieve_top_k:
  assumes "1 \<le> k"
  shows "length (retrieve w q rows k) \<le> nat k \<and>
         sorted_wrt (\<lambda>a b. js_ge (score a) (score b)) (retrieve w q rows k) \<and>
         (\<forall>x\<in>set (retrieve w q rows k).
            js_ge (score x) (Fin 0) \<and> x \<in> set (map (score_row w q) rows)) \<and>
         (\<forall>s. prefix (filter (\<lambda>x. score x = s) (retrieve w q rows k))
                      (filter (\<lambda>x. score x = s) (map (score_row w q) rows)))"
proof -
  define kept where "kept = filter (\<lambda>x. js_ge (score x) (Fin 0)) (map (score_row w q) rows)"
  define ranked where "ranked = js_sort by_score kept"
  have r: "retrieve w q rows k = take (nat k) ranked"
    using assms by (simp add: retrieve_def kept_def ranked_def js_slice_take)
  have nn: "\<forall>x\<in>set kept. score x \<noteq> NaN"
    by (auto simp: kept_def dest: js_ge_not_NaN)
  have 1: "length (retrieve w q rows k) \<le> nat k" by (simp add: r)
  have 2: "sorted_wrt score_ge (retrieve w q rows k)"
    unfolding r ranked_def by (intro sorted_wrt_take sorted_js_sort nn)
  have sub: "set (retrieve w q rows k) \<subseteq> set kept"
    unfolding r ranked_def using set_take_subset[of "nat k" "js_sort by_score kept"]
    by (simp add: set_js_sort)
  then have 3: "\<forall>x\<in>set (retrieve w q rows k).
      js_ge (score x) (Fin 0) \<and> x \<in> set (map (score_row w q) rows)"
    by (auto simp: kept_def)
  have 4: "prefix (filter (\<lambda>x. score x = s) (retrieve w q rows k))
                  (filter (\<lambda>x. score x = s) (map (score_row w q) rows))" for s
  proof (cases "js_ge s (Fin 0)")
    case True
    have "filter (\<lambda>x. score x = s) ranked = filter (\<lambda>x. score x = s) kept"
      unfolding ranked_def by (rule js_sort_stable[OF nn])
    also have "\<dots> = filter (\<lambda>x. score x = s) (map (score_row w q) rows)"
      unfolding kept_def filter_filter using True by (intro filter_cong) auto
    finally have eq: "filter (\<lambda>x. score x = s) ranked
        = filter (\<lambda>x. score x = s) (map (score_row w q) rows)" .
    have "filter (\<lambda>x. score x = s) ranked
        = filter (\<lambda>x. score x = s) (take (nat k) ranked) @ filter (\<lambda>x. score x = s) (drop (nat k) ranked)"
      by (simp flip: filter_append)
    then show ?thesis unfolding r eq[symmetric] by (metis prefixI)
  next
    case False
    with 3 have "filter (\<lambda>x. score x = s) (retrieve w q rows k) = []"
      by (auto simp: filter_empty_conv)
    then show ?thesis by simp
  qed
  from 1 2 3 4 show ?thesis by blast
qed

theorem retrieve_top_k_witness:
  "(1::int) \<le> 2 \<and>
   retrieve sample_world [JNum (Fin 1)] (rag_chunks sample_store) 2
     = [\<lparr>scored_row = sample_row 3 2 ''gamma'' ''[2]'', score = Fin 1\<rparr>,
        \<lparr>scored_row = sample_row 1 0 ''alpha'' ''[0]'', score = Fin 0\<rparr>] \<and>
   length (retrieve sample_world [JNum (Fin 1)] (rag_chunks sample_store) 2) \<le> nat 2 \<and>
   sorted_wrt (\<lambda>a b. js_ge (score a) (score b))
     (retrieve sample_world [JNum (Fin 1)] (rag_chunks sample_store) 2)"
proof -
  have k: "(1::int) \<le> 2" by simp
  note t = retrieve_top_k[OF k, of sample_world "[JNum (Fin 1)]" "rag_chunks sample_store"]
  from t have "length (retrieve sample_world [JNum (Fin 1)] (rag_chunks sample_store) 2) \<le> nat 2"
    by (rule conjunct1)
  moreover from t have "sorted_wrt (\<lambda>a b. js_ge (score a) (score b))
     (retrieve sample_world [JNum (Fin 1)] (rag_chunks sample_store) 2)"
    by (rule conjunct1[OF conjunct2])
  ultimately show ?thesis using k sample_retrieve by blast
qed

section \<open>Properties of the ingest handler\<close>

lemma embed_rows_fails:
  assumes "j < length todo" "isl (embedText w (i + j) (todo ! j))"
  shows "\<exists>err calls'. embed_rows w req i todo done calls = (Inl err, calls')"
  using assms
proof (induction todo arbitrary: i j "done" calls)
  case Nil
  then show ?case by simp
next
  case (Cons chunk todo)
  show ?case
  proof (cases "embedText w i chunk")
    case (Inl err)
    then show ?thesis by simp
  next
    case (Inr embedding)
    with Cons.prems obtain j' where j: "j = Suc j'" by (cases j) auto
    with Cons.prems have "j' < length todo" "isl (embedText w (Suc i + j') (todo ! j'))" by simp_all
    from Cons.IH[OF this] Inr show ?thesis by simp
  qed
qed

lemma embed_rows_succeeds:
  assumes "\<forall>j<length todo. \<not> isl (embedText w (i + j) (todo ! j))"
  shows "\<exists>new calls'. embed_rows w req i todo done calls = (Inr (done @ new), calls') \<and>
           map row_content new = todo \<and>
           map row_chunk_index new = map int [i..<i + length todo] \<and>
           list_all (\<lambda>r. row_source r = ingest_source req \<and> row_created_at r = Date_now w) new \<and>
           calls' = calls @ map Embedding_call todo"
  using assms
proof (induction todo arbitrary: i "done" calls)
  case Nil
  show ?case by simp
next
  case (Cons chunk todo)
  from Cons.prems[rule_format, of 0] obtain embedding where e: "embedText w i chunk = Inr embedding"
    by (cases "embedText w i chunk") auto
  let ?r = "\<lparr>row_source = ingest_source req, row_chunk_index = int i, row_content = chunk,
             row_embedding_json = JSON_stringify w (JArr embedding), row_created_at = Date_now w\<rparr>"
  have "\<forall>j<length todo. \<not> isl (embedText w (Suc i + j) (todo ! j))"
  proof (intro allI impI)
    fix j assume "j < length todo"
    with Cons.prems[rule_format, of "Suc j"] show "\<not> isl (embedText w (Suc i + j) (todo ! j))" by simp
  qed
  from Cons.IH[OF this, of "done @ [?r]" "calls @ [Embedding_call chunk]"]
  obtain new calls' where n: "embed_rows w req (Suc i) todo (done @ [?r]) (calls @ [Embedding_call chunk])
        = (Inr ((done @ [?r]) @ new), calls')"
    "map row_content new = todo" "map row_chunk_index new = map int [Suc i..<Suc i + length todo]"
    "list_all (\<lambda>r. row_source r = ingest_source req \<and> row_created_at r = Date_now w) new"
    "calls' = (calls @ [Embedding_call chunk]) @ map Embedding_call todo"
    by blast
  have "[i..<i + length (chunk # todo)] = i # [Suc i..<Suc i + length todo]"
    by (subst upt_rec) simp
  with e n show ?case
    by (intro exI[of _ "?r # new"] exI[of _ calls']) simp
qed

lemma sqlite_text_ascii:
  "sqlite_text (ascii ''A.'') = ascii ''A.''" "sqlite_text (ascii ''B.'') = ascii ''B.''"
  "sqlite_text (ascii ''doc2'') = ascii ''doc2''"
  by (simp_all add: ascii_def is_high_surrogate_def is_low_surrogate_def)

text \<open>
  A pair of surrogates is stored as it is; either half alone, as a window cut inside the
  pair leaves it, is stored as U+FFFD.
\<close>

lemma sqlite_text_surrogates:
  "sqlite_text [0xD83D, 0xDE00] = [0xD83D, 0xDE00]"
  "sqlite_text [0xD83D] = [0xFFFD]" "sqlite_text [0xDE00] = [0xFFFD]"
  by (simp_all add: is_high_surrogate_def is_low_surrogate_def)

lemma insert_rows_throws:
  assumes "i < length rs" "sqlite_throws w (Sqlite_insert (n + i))"
  shows "\<exists>err db'. insert_rows w n db rs count = (Inl err, db')"
  using assms
proof (induction rs arbitrary: n i db count)
  case Nil
  then show ?case by simp
next
  case (Cons r rs)
  show ?case
  proof (cases "sqlite_throws w (Sqlite_insert n)")
    case True
    then show ?thesis by (simp add: insertStmt_run_def)
  next
    case False
    with Cons.prems obtain i' where i: "i = Suc i'" by (cases i) auto
    with Cons.prems have "i' < length rs" "sqlite_throws w (Sqlite_insert (Suc n + i'))" by simp_all
    from Cons.IH[OF this] False show ?thesis by (simp add: insertStmt_run_def)
  qed
qed

lemma insert_rows_all:
  assumes "\<forall>i<length rs. \<not> sqlite_throws w (Sqlite_insert (n + i))"
  shows "\<exists>new. insert_rows w n db rs count
                 = (Inr (count + length rs),
                    \<lparr>rag_chunks = rag_chunks db @ new,
                     sqlite_sequence = sqlite_sequence db + int (length rs)\<rparr>) \<and>
               map row_content new = map (\<lambda>r. sqlite_text (row_content r)) rs \<and>
               map row_source new = map (\<lambda>r. sqlite_text (row_source r)) rs \<and>
               map row_chunk_index new = map row_chunk_index rs \<and>
               map row_id new = map (\<lambda>k. sqlite_sequence db + 1 + int k) [0..<length rs]"
  using assms
proof (induction rs arbitrary: n db count)
  case Nil
  show ?case by simp
next
  case (Cons r rs)
  let ?row = "\<lparr>row_source = sqlite_text (row_source r), row_chunk_index = row_chunk_index r,
          row_content = sqlite_text (row_content r),
          row_embedding_json = sqlite_text (row_embedding_json r),
          row_created_at = row_created_at r, row_id = sqlite_sequence db + 1\<rparr>"
  let ?db = "\<lparr>rag_chunks = rag_chunks db @ [?row], sqlite_sequence = sqlite_sequence db + 1\<rparr>"
  from Cons.prems[rule_format, of 0] have first: "insertStmt_run w n db r = Inr ?db"
    by (simp add: insertStmt_run_def)
  have "\<forall>i<length rs. \<not> sqlite_throws w (Sqlite_insert (Suc n + i))"
  proof (intro allI impI)
    fix i assume "i < length rs"
    with Cons.prems[rule_format, of "Suc i"] show "\<not> sqlite_throws w (Sqlite_insert (Suc n + i))"
      by simp
  qed
  from Cons.IH[OF this, of ?db "count + 1"] obtain new where
    n: "insert_rows w (Suc n) ?db rs (count + 1)
          = (Inr (count + 1 + length rs),
             \<lparr>rag_chunks = rag_chunks ?db @ new,
              sqlite_sequence = sqlite_sequence ?db + int (length rs)\<rparr>)"
      "map row_content new = map (\<lambda>r. sqlite_text (row_content r)) rs"
      "map row_source new = map (\<lambda>r. sqlite_text (row_source r)) rs"
      "map row_chunk_index new = map row_chunk_index rs"
      "map row_id new = map (\<lambda>k. sqlite_sequence ?db + 1 + int k) [0..<length rs]"
    by blast
  have ids: "map (\<lambda>k. sqlite_sequence db + 1 + int k) [0..<length (r # rs)]
      = (sqlite_sequence db + 1) # map (\<lambda>k. sqlite_sequence ?db + 1 + int k) [0..<length rs]"
    by (simp add: map_upt_Suc add.commute add.left_commute del: upt_Suc)
  have 1: "insert_rows w n db (r # rs) count
      = (Inr (count + length (r # rs)),
         \<lparr>rag_chunks = rag_chunks db @ (?row # new),
          sqlite_sequence = sqlite_sequence db + int (length (r # rs))\<rparr>)"
    using first n(1) by (simp add: add.commute add.left_commute)
  have 2: "map row_content (?row # new) = map (\<lambda>r. sqlite_text (row_content r)) (r # rs)"
    using n(2) by simp
  have 3: "map row_source (?row # new) = map (\<lambda>r. sqlite_text (row_source r)) (r # rs)"
    using n(3) by simp
  have 4: "map row_chunk_index (?row # new) = map row_chunk_index (r # rs)"
    using n(4) by simp
  have 5: "map row_id (?row # new)
      = map (\<lambda>k. sqlite_sequence db + 1 + int k) [0..<length (r # rs)]"
    unfolding ids using n(5) by simp
  from 1 2 3 4 5 show ?case by (intro exI[of _ "?row # new"] conjI)
qed

text \<open>
  The transaction is all or nothing: when \<open>BEGIN\<close>, an insert or \<open>COMMIT\<close> is refused it
  throws and leaves the database as it was; otherwise every row is there.
\<close>

lemma inserted_throws:
  assumes "sqlite_throws w Sqlite_begin \<or> (\<exists>i<length rs. sqlite_throws w (Sqlite_insert i)) \<or>
           sqlite_throws w Sqlite_commit"
  shows "\<exists>err. inserted w db rs = (Inl err, db)"
proof (cases "sqlite_throws w Sqlite_begin")
  case True
  then show ?thesis by (simp add: inserted_def db_transaction_def)
next
  case no_begin: False
  show ?thesis
  proof (cases "\<exists>i<length rs. sqlite_throws w (Sqlite_insert i)")
    case True
    then obtain i where "i < length rs" "sqlite_throws w (Sqlite_insert (0 + i))" by auto
    from insert_rows_throws[OF this, of db 0]
    obtain err db' where "insert_rows w 0 db rs 0 = (Inl err, db')" by blast
    with no_begin show ?thesis by (simp add: inserted_def db_transaction_def)
  next
    case False
    with assms no_begin have commit: "sqlite_throws w Sqlite_commit" by blast
    obtain x db' where "insert_rows w 0 db rs 0 = (x, db')" by (cases "insert_rows w 0 db rs 0")
    with no_begin commit show ?thesis
      by (cases x) (simp_all add: inserted_def db_transaction_def)
  qed
qed

lemma inserted_commits:
  assumes "\<not> (sqlite_throws w Sqlite_begin \<or> (\<exists>i<length rs. sqlite_throws w (Sqlite_insert i)) \<or>
              sqlite_throws w Sqlite_commit)"
  shows "\<exists>new. inserted w db rs
                 = (Inr (length rs),
                    \<lparr>rag_chunks = rag_chunks db @ new,
                     sqlite_sequence = sqlite_sequence db + int (length rs)\<rparr>) \<and>
               map row_content new = map (\<lambda>r. sqlite_text (row_content r)) rs \<and>
               map row_source new = map (\<lambda>r. sqlite_text (row_source r)) rs \<and>
               map row_chunk_index new = map row_chunk_index rs"
proof -
  from assms have "\<forall>i<length rs. \<not> sqlite_throws w (Sqlite_insert (0 + i))" by simp
  from insert_rows_all[OF this, of db 0] obtain new where
    n: "insert_rows w 0 db rs 0
          = (Inr (0 + length rs),
             \<lparr>rag_chunks = rag_chunks db @ new,
              sqlite_sequence = sqlite_sequence db + int (length rs)\<rparr>)"
      "map row_content new = map (\<lambda>r. sqlite_text (row_content r)) rs"
      "map row_source new = map (\<lambda>r. sqlite_text (row_source r)) rs"
      "map row_chunk_index new = map row_chunk_index rs"
    by blast
  have "inserted w db rs
          = (Inr (length rs),
             \<lparr>rag_chunks = rag_chunks db @ new,
              sqlite_sequence = sqlite_sequence db + int (length rs)\<rparr>)"
    using assms n(1) by (simp add: inserted_def db_transaction_def)
  with n(2,3,4) show ?thesis by (intro exI[of _ new] conjI)
qed

text \<open>
  Without the transaction the rows inserted before a refused insert would stay: in the
  sample, the function given to \<open>db.transaction\<close> leaves four rows when its second insert
  throws, and \<open>inserted\<close> leaves the three of before.
\<close>

lemma rollback_restores_sample:
  "length (rag_chunks (snd (insert_rows second_insert_fails_world 0 sample_store
      [\<lparr>row_source = ascii ''doc2'', row_chunk_index = 0, row_content = ascii ''A.'',
        row_embedding_json = ascii ''[1]'', row_created_at = 1000\<rparr>,
       \<lparr>row_source = ascii ''doc2'', row_chunk_index = 1, row_content = ascii ''B.'',
        row_embedding_json = ascii ''[1]'', row_created_at = 1000\<rparr>] 0))) = 4"
  "inserted second_insert_fails_world sample_store
      [\<lparr>row_source = ascii ''doc2'', row_chunk_index = 0, row_content = ascii ''A.'',
        row_embedding_json = ascii ''[1]'', row_created_at = 1000\<rparr>,
       \<lparr>row_source = ascii ''doc2'', row_chunk_index = 1, row_content = ascii ''B.'',
        row_embedding_json = ascii ''[1]'', row_created_at = 1000\<rparr>]
   = (Inl SqliteError, sample_store)"
  by (simp_all add: inserted_def db_transaction_def insertStmt_run_def
      second_insert_fails_world_def sample_world_def sample_store_def)

text \<open>
  Claim C1: for every ingest request that passes validation, with the API key set. A run
  that does not come back from \<open>chunkText\<close> writes nothing. Otherwise, if the embedding
  call of any chunk throws, the reply is the internal error and the database is what it
  was before the call (no row is persisted). If no embedding call throws, one was made
  per chunk, in order, and the rows are inserted in one transaction, all or none: when
  SQLite refuses \<open>BEGIN\<close>, one of the inserts or \<open>COMMIT\<close>, the reply is the internal error
  and the database is what it was before; when it refuses nothing, there is one new row
  per chunk, in order, with the chunk as SQLite stores the text, its index and the
  source of the request, and the count in the reply is the number of chunks.
\<close>

theorem ingest_atomic:
  assumes "RagIngestSchema body = Some req" and "apiKey w = Some key"
  shows "(chunkText (chunk_settings w) (ingest_text req) = None \<longrightarrow>
            ingest_handler w db body = (None, [], db)) \<and>
         (chunkText (chunk_settings w) (ingest_text req) = Some chunks \<longrightarrow>
            ((\<exists>i<length chunks. isl (embedText w i (chunks ! i))) \<longrightarrow>
               (\<exists>calls. ingest_handler w db body = (Some (internal_error w), calls, db))) \<and>
            ((\<forall>i<length chunks. \<not> isl (embedText w i (chunks ! i))) \<longrightarrow>
               ((sqlite_throws w Sqlite_begin \<or>
                 (\<exists>i<length chunks. sqlite_throws w (Sqlite_insert i)) \<or>
                 sqlite_throws w Sqlite_commit) \<longrightarrow>
                  ingest_handler w db body
                    = (Some (internal_error w), map Embedding_call chunks, db)) \<and>
               (\<not> (sqlite_throws w Sqlite_begin \<or>
                    (\<exists>i<length chunks. sqlite_throws w (Sqlite_insert i)) \<or>
                    sqlite_throws w Sqlite_commit) \<longrightarrow>
                  (\<exists>new. ingest_handler w db body =
                     (Some \<lparr>status_code = 200,
                            reply = Ingest_reply (randomUUID w) (length chunks)\<rparr>,
                      map Embedding_call chunks,
                      \<lparr>rag_chunks = rag_chunks db @ new,
                       sqlite_sequence = sqlite_sequence db + int (length chunks)\<rparr>) \<and>
                     map row_content new = map sqlite_text chunks \<and>
                     map row_chunk_index new = map int [0..<length chunks] \<and>
                     list_all (\<lambda>r. row_source r = sqlite_text (ingest_source req)) new))))"
proof (intro conjI impI)
  assume "chunkText (chunk_settings w) (ingest_text req) = None"
  with assms show "ingest_handler w db body = (None, [], db)"
    by (simp add: ingest_handler_def)
next
  assume c: "chunkText (chunk_settings w) (ingest_text req) = Some chunks"
    and "\<exists>i<length chunks. isl (embedText w i (chunks ! i))"
  then obtain i where "i < length chunks" "isl (embedText w (0 + i) (chunks ! i))" by auto
  from embed_rows_fails[OF this, of req "[]" "[]"]
  obtain err calls where "embed_rows w req 0 chunks [] [] = (Inl err, calls)" by blast
  with assms c show "\<exists>calls. ingest_handler w db body = (Some (internal_error w), calls, db)"
    by (simp add: ingest_handler_def)
next
  assume c: "chunkText (chunk_settings w) (ingest_text req) = Some chunks"
    and "\<forall>i<length chunks. \<not> isl (embedText w i (chunks ! i))"
    and t: "sqlite_throws w Sqlite_begin \<or> (\<exists>i<length chunks. sqlite_throws w (Sqlite_insert i)) \<or>
            sqlite_throws w Sqlite_commit"
  then have "\<forall>j<length chunks. \<not> isl (embedText w (0 + j) (chunks ! j))" by simp
  from embed_rows_succeeds[OF this, of req "[]" "[]"]
  obtain vals where v: "embed_rows w req 0 chunks [] [] = (Inr vals, map Embedding_call chunks)"
    "map row_content vals = chunks"
    by auto
  from v(2) have len: "length vals = length chunks" by (metis length_map)
  from t have "sqlite_throws w Sqlite_begin \<or> (\<exists>i<length vals. sqlite_throws w (Sqlite_insert i)) \<or>
            sqlite_throws w Sqlite_commit" unfolding len .
  from inserted_throws[OF this, of db] obtain err where "inserted w db vals = (Inl err, db)" ..
  with assms c v(1)
  show "ingest_handler w db body = (Some (internal_error w), map Embedding_call chunks, db)"
    by (simp add: ingest_handler_def)
next
  assume c: "chunkText (chunk_settings w) (ingest_text req) = Some chunks"
    and "\<forall>i<length chunks. \<not> isl (embedText w i (chunks ! i))"
    and t: "\<not> (sqlite_throws w Sqlite_begin \<or> (\<exists>i<length chunks. sqlite_throws w (Sqlite_insert i)) \<or>
            sqlite_throws w Sqlite_commit)"
  then have "\<forall>j<length chunks. \<not> isl (embedText w (0 + j) (chunks ! j))" by simp
  from embed_rows_succeeds[OF this, of req "[]" "[]"]
  obtain vals where v: "embed_rows w req 0 chunks [] [] = (Inr vals, map Embedding_call chunks)"
    "map row_content vals = chunks" "map row_chunk_index vals = map int [0..<length chunks]"
    "list_all (\<lambda>r. row_source r = ingest_source req \<and> row_created_at r = Date_now w) vals"
    by auto
  from v(2) have len: "length vals = length chunks" by (metis length_map)
  from t have "\<not> (sqlite_throws w Sqlite_begin \<or> (\<exists>i<length vals. sqlite_throws w (Sqlite_insert i)) \<or>
            sqlite_throws w Sqlite_commit)" unfolding len .
  from inserted_commits[OF this, of db]
  obtain new where n: "inserted w db vals
        = (Inr (length vals), \<lparr>rag_chunks = rag_chunks db @ new,
             sqlite_sequence = sqlite_sequence db + int (length vals)\<rparr>)"
    "map row_content new = map (\<lambda>r. sqlite_text (row_content r)) vals"
    "map row_source new = map (\<lambda>r. sqlite_text (row_source r)) vals"
    "map row_chunk_index new = map row_chunk_index vals"
    by blast
  have content: "map (\<lambda>r. sqlite_text (row_content r)) vals = map sqlite_text (map row_content vals)"
    by (simp add: comp_def)
  have src: "map (\<lambda>r. sqlite_text (row_source r)) vals
      = map (\<lambda>r. sqlite_text (ingest_source req)) vals"
    using v(4) by (intro map_cong) (auto simp: list_all_iff)
  show "\<exists>new. ingest_handler w db body =
               (Some \<lparr>status_code = 200, reply = Ingest_reply (randomUUID w) (length chunks)\<rparr>,
                map Embedding_call chunks,
                \<lparr>rag_chunks = rag_chunks db @ new,
                 sqlite_sequence = sqlite_sequence db + int (length chunks)\<rparr>) \<and>
               map row_content new = map sqlite_text chunks \<and>
               map row_chunk_index new = map int [0..<length chunks] \<and>
               list_all (\<lambda>r. row_source r = sqlite_text (ingest_source req)) new"
  proof (intro exI[of _ new] conjI)
    show "ingest_handler w db body =
               (Some \<lparr>status_code = 200, reply = Ingest_reply (randomUUID w) (length chunks)\<rparr>,
                map Embedding_call chunks,
                \<lparr>rag_chunks = rag_chunks db @ new,
                 sqlite_sequence = sqlite_sequence db + int (length chunks)\<rparr>)"
      using assms c v(1) n(1) len by (simp add: ingest_handler_def)
    show "map row_content new = map sqlite_text chunks"
      unfolding n(2) content v(2) ..
    show "map row_chunk_index new = map int [0..<length chunks]"
      unfolding n(4) v(3) ..
    have "\<forall>s\<in>set (map row_source new). s = sqlite_text (ingest_source req)"
      unfolding n(3) src by auto
    then show "list_all (\<lambda>r. row_source r = sqlite_text (ingest_source req)) new"
      by (auto simp: list_all_iff)
  qed
qed

theorem ingest_atomic_witness:
  "RagIngestSchema two_paragraphs
     = Some \<lparr>ingest_source = ascii ''doc2'', ingest_text = ascii ''A.'' @ [LF, LF] @ ascii ''B.''\<rparr> \<and>
   chunkText default_chunk_env (ascii ''A.'' @ [LF, LF] @ ascii ''B.'')
     = Some [ascii ''A.'', ascii ''B.''] \<and>
   embedText second_embedding_fails_world 1 (ascii ''B.'') = Inl Fetch_TypeError \<and>
   (\<exists>calls. ingest_handler second_embedding_fails_world sample_store two_paragraphs
      = (Some (internal_error second_embedding_fails_world), calls, sample_store)) \<and>
   sqlite_throws second_insert_fails_world (Sqlite_insert 1) \<and>
   ingest_handler second_insert_fails_world sample_store two_paragraphs
     = (Some (internal_error second_insert_fails_world),
        [Embedding_call (ascii ''A.''), Embedding_call (ascii ''B.'')], sample_store) \<and>
   (\<exists>new. ingest_handler sample_world sample_store two_paragraphs
      = (Some \<lparr>status_code = 200, reply = Ingest_reply (ascii ''id-1'') 2\<rparr>,
         [Embedding_call (ascii ''A.''), Embedding_call (ascii ''B.'')],
         \<lparr>rag_chunks = rag_chunks sample_store @ new, sqlite_sequence = 5\<rparr>) \<and>
      map row_content new = [ascii ''A.'', ascii ''B.''] \<and>
      map row_chunk_index new = [0, 1]) \<and>
   chunkText (chunk_settings looping_world) (replicate 101 0x61) = None \<and>
   ingest_handler looping_world sample_store long_paragraph = (None, [], sample_store)"
proof -
  have l: "chunkText (chunk_settings looping_world)
      (ingest_text \<lparr>ingest_source = ascii ''doc3'', ingest_text = replicate 101 0x61\<rparr>) = None"
    using long_paragraph_loops by simp
  note looped = ingest_atomic[OF long_paragraph_parses sample_apiKey(10),
      where db = sample_store, THEN conjunct1, THEN mp, OF l]
  let ?req = "\<lparr>ingest_source = ascii ''doc2'', ingest_text = ascii ''A.'' @ [LF, LF] @ ascii ''B.''\<rparr>"
  let ?chunks = "[ascii ''A.'', ascii ''B.'']"
  have c1: "chunkText (chunk_settings second_embedding_fails_world) (ingest_text ?req) = Some ?chunks"
    using two_paragraphs_chunks
    by (simp add: second_embedding_fails_world_def sample_world_def)
  have c2: "chunkText (chunk_settings second_insert_fails_world) (ingest_text ?req) = Some ?chunks"
    using two_paragraphs_chunks
    by (simp add: second_insert_fails_world_def sample_world_def)
  have c3: "chunkText (chunk_settings sample_world) (ingest_text ?req) = Some ?chunks"
    using two_paragraphs_chunks by (simp add: sample_world_def)
  have second: "embedText second_embedding_fails_world (Suc 0) (ascii ''B.'') = Inl Fetch_TypeError"
    using sample_embedText(5) by simp
  have fails: "\<exists>i<length ?chunks. isl (embedText second_embedding_fails_world i (?chunks ! i))"
    by (intro exI[of _ 1]) (simp add: second)
  have ok2: "\<forall>i<length ?chunks. \<not> isl (embedText second_insert_fails_world i (?chunks ! i))"
    by (simp add: sample_embedText)
  have ok3: "\<forall>i<length ?chunks. \<not> isl (embedText sample_world i (?chunks ! i))"
    by (simp add: sample_embedText)
  have refused: "sqlite_throws second_insert_fails_world (Sqlite_insert 1)"
    by (simp add: second_insert_fails_world_def)
  have s2: "sqlite_throws second_insert_fails_world Sqlite_begin \<or>
      (\<exists>i<length ?chunks. sqlite_throws second_insert_fails_world (Sqlite_insert i)) \<or>
      sqlite_throws second_insert_fails_world Sqlite_commit"
  proof -
    have "\<exists>i<length ?chunks. sqlite_throws second_insert_fails_world (Sqlite_insert i)"
      by (intro exI[of _ 1]) (simp add: second_insert_fails_world_def)
    then have "(\<exists>i<length ?chunks. sqlite_throws second_insert_fails_world (Sqlite_insert i)) \<or>
        sqlite_throws second_insert_fails_world Sqlite_commit" by (rule disjI1)
    then show ?thesis by (rule disjI2)
  qed
  have s3: "\<not> (sqlite_throws sample_world Sqlite_begin \<or>
      (\<exists>i<length ?chunks. sqlite_throws sample_world (Sqlite_insert i)) \<or>
      sqlite_throws sample_world Sqlite_commit)"
    by (simp add: sample_world_def)
  note a = ingest_atomic[OF two_paragraphs_parses sample_apiKey(5),
      where chunks = ?chunks and db = sample_store,
      THEN conjunct2, THEN mp, OF c1, THEN conjunct1, THEN mp, OF fails]
  note r = ingest_atomic[OF two_paragraphs_parses sample_apiKey(8),
      where chunks = ?chunks and db = sample_store,
      THEN conjunct2, THEN mp, OF c2, THEN conjunct2, THEN mp, OF ok2, THEN conjunct1, THEN mp, OF s2]
  note g = ingest_atomic[OF two_paragraphs_parses sample_apiKey(1),
      where chunks = ?chunks and db = sample_store,
      THEN conjunct2, THEN mp, OF c3, THEN conjunct2, THEN mp, OF ok3, THEN conjunct2, THEN mp, OF s3]
  have rolled: "ingest_handler second_insert_fails_world sample_store two_paragraphs
     = (Some (internal_error second_insert_fails_world),
        [Embedding_call (ascii ''A.''), Embedding_call (ascii ''B.'')], sample_store)"
    using r by simp
  have id: "randomUUID sample_world = ascii ''id-1''"
    "sqlite_sequence sample_store + int (length ?chunks) = 5"
    "map int [0..<length ?chunks] = [0, 1]"
    "length ?chunks = 2" "sqlite_sequence sample_store + int 2 = 5"
    "map int [0..<2] = [0, 1]"
    "map Embedding_call ?chunks = [Embedding_call (ascii ''A.''), Embedding_call (ascii ''B.'')]"
    "map sqlite_text ?chunks = ?chunks"
    by (simp_all add: sample_world_def sample_store_def upt_conv_Cons sqlite_text_ascii)
  from g obtain new where all: "ingest_handler sample_world sample_store two_paragraphs =
               (Some \<lparr>status_code = 200,
                      reply = Ingest_reply (randomUUID sample_world) (length ?chunks)\<rparr>,
                map Embedding_call ?chunks,
                \<lparr>rag_chunks = rag_chunks sample_store @ new,
                 sqlite_sequence = sqlite_sequence sample_store + int (length ?chunks)\<rparr>) \<and>
               map row_content new = map sqlite_text ?chunks \<and>
               map row_chunk_index new = map int [0..<length ?chunks] \<and>
               list_all (\<lambda>r. row_source r = sqlite_text (ingest_source ?req)) new" ..
  note n = all[THEN conjunct1] all[THEN conjunct2, THEN conjunct1]
    all[THEN conjunct2, THEN conjunct2, THEN conjunct1]
  have b: "\<exists>new. ingest_handler sample_world sample_store two_paragraphs
      = (Some \<lparr>status_code = 200, reply = Ingest_reply (ascii ''id-1'') 2\<rparr>,
         [Embedding_call (ascii ''A.''), Embedding_call (ascii ''B.'')],
         \<lparr>rag_chunks = rag_chunks sample_store @ new, sqlite_sequence = 5\<rparr>) \<and>
      map row_content new = [ascii ''A.'', ascii ''B.''] \<and>
      map row_chunk_index new = [0, 1]"
  proof (intro exI[of _ new] conjI)
    show "ingest_handler sample_world sample_store two_paragraphs
      = (Some \<lparr>status_code = 200, reply = Ingest_reply (ascii ''id-1'') 2\<rparr>,
         [Embedding_call (ascii ''A.''), Embedding_call (ascii ''B.'')],
         \<lparr>rag_chunks = rag_chunks sample_store @ new, sqlite_sequence = 5\<rparr>)"
      using n(1) unfolding id .
    show "map row_content new = [ascii ''A.'', ascii ''B.'']" using n(2) unfolding id .
    show "map row_chunk_index new = [0, 1]" using n(3) unfolding id .
  qed
  show ?thesis
    by (intro conjI two_paragraphs_parses two_paragraphs_chunks sample_embedText(5) a refused
        rolled b long_paragraph_loops looped)
qed

text \<open>Whatever the request, the database changes only with a reply of status 200.\<close>

lemma inserted_store_kept: "inserted w db rows = (Inl err, db') \<Longrightarrow> db' = db"
  by (cases "insert_rows w 0 db rows 0"; cases "fst (insert_rows w 0 db rows 0)")
     (auto simp: inserted_def db_transaction_def split: if_splits)

lemma ingest_store_kept_on_failure:
  assumes "ingest_handler w db body = (r, calls, db')"
    and "\<And>rep. r = Some rep \<Longrightarrow> status_code rep \<noteq> 200"
  shows "db' = db"
proof (cases "RagIngestSchema body")
  case None
  with assms(1) show ?thesis by (simp add: ingest_handler_def)
next
  case req: (Some req)
  show ?thesis
  proof (cases "apiKey w")
    case None
    with assms(1) req show ?thesis by (simp add: ingest_handler_def)
  next
    case key: (Some key)
    show ?thesis
    proof (cases "chunkText (chunk_settings w) (ingest_text req)")
      case None
      with assms(1) req key show ?thesis by (simp add: ingest_handler_def)
    next
      case chunks: (Some chunks)
      obtain x calls' where e: "embed_rows w req 0 chunks [] [] = (x, calls')"
        by (cases "embed_rows w req 0 chunks [] []")
      show ?thesis
      proof (cases x)
        case (Inl err)
        with assms(1) req key chunks e show ?thesis by (simp add: ingest_handler_def)
      next
        case (Inr rows)
        obtain y db'' where i: "inserted w db rows = (y, db'')" by (cases "inserted w db rows")
        show ?thesis
        proof (cases y)
          case (Inl err)
          with i have "db'' = db" by (simp add: inserted_store_kept)
          with assms(1) req key chunks e Inr i Inl show ?thesis by (simp add: ingest_handler_def)
        next
          case count: (Inr count)
          with assms(1) req key chunks e Inr i
          have "r = Some \<lparr>status_code = 200, reply = Ingest_reply (randomUUID w) count\<rparr>"
            by (simp add: ingest_handler_def)
          from assms(2)[OF this] show ?thesis by simp
        qed
      qed
    qed
  qed
qed

section \<open>Properties of the chat handler\<close>

lemma those_map_Some:
  "those (map f xs) = Some ys \<Longrightarrow> list_all2 (\<lambda>x y. f x = Some y) xs ys"
  by (induction xs arbitrary: ys) (auto split: option.splits)

lemma parse_message_content:
  "parse_message v = Some m \<Longrightarrow> content m \<noteq> []"
  by (auto simp: parse_message_def split: option.splits json.splits if_splits)

lemma ChatRequestSchema_content:
  assumes "ChatRequestSchema body = Some req" "m \<in> set (messages req)"
  shows "content m \<noteq> []"
proof -
  from assms(1) obtain ms where "those (map parse_message ms) = Some (messages req)"
    by (auto simp: ChatRequestSchema_def parse_messages_def split: json.splits option.splits)
  then have "list_all2 (\<lambda>x y. parse_message x = Some y) ms (messages req)"
    by (rule those_map_Some)
  with assms(2) obtain v where "parse_message v = Some m"
    by (auto simp: list_all2_conv_all_nth in_set_conv_nth)
  then show ?thesis by (rule parse_message_content)
qed

lemma lastUser_in_messages:
  assumes "lastUser ms = Some q"
  shows "\<exists>m\<in>set ms. content m = q"
proof -
  from assms obtain m where f: "find (\<lambda>m. role m = ascii ''user'') (rev ms) = Some m"
    and c: "content m = q"
    by (auto simp: lastUser_def)
  from f obtain i where "i < length (rev ms)" "m = rev ms ! i"
    unfolding find_Some_iff by blast
  then have "m \<in> set (rev ms)" by (simp only: nth_mem)
  with c show ?thesis by auto
qed

lemma status_code_completion:
  "status_code (completion w creq cites) \<noteq> 400"
  by (simp add: completion_def internal_error_def upstream_error_def bad_upstream_response_def
      split: fetch_result.splits option.splits json.splits)

lemma retrieval_calls:
  assumes "retrieval w db req = (x, cs)"
  shows "Completion_call c \<notin> set cs"
proof (cases "use_rag req = Some True")
  case False
  with assms show ?thesis by (simp add: retrieval_def)
next
  case rag: True
  show ?thesis
  proof (cases "lastUser (messages req)")
    case None
    with assms rag show ?thesis by (simp add: retrieval_def)
  next
    case (Some q)
    with assms rag show ?thesis
      by (cases "embedText w 0 q"; cases "q = []") (auto simp: retrieval_def)
  qed
qed

lemma chat_handler_completion_call:
  assumes "chat_handler w db body = (r, calls)" and "Completion_call creq \<in> set calls"
  obtains req key citations ragContext rcalls where
    "ChatRequestSchema body = Some req" and "apiKey w = Some key"
    and "retrieval w db req = (Inr (citations, ragContext), rcalls)"
    and "creq = completion_request_of w req ragContext"
    and "r = completion w creq citations"
    and "calls = rcalls @ [Completion_call creq]"
proof (cases "ChatRequestSchema body")
  case None
  with assms show ?thesis by (simp add: chat_handler_def)
next
  case req: (Some req)
  show ?thesis
  proof (cases "apiKey w")
    case None
    with assms req show ?thesis by (simp add: chat_handler_def)
  next
    case key: (Some key)
    obtain x rcalls where ret: "retrieval w db req = (x, rcalls)" by (cases "retrieval w db req")
    note none = retrieval_calls[OF ret, of creq]
    show ?thesis
    proof (cases x)
      case (Inl err)
      with assms req key ret none show ?thesis by (simp add: chat_handler_def)
    next
      case (Inr found)
      obtain citations ragContext where f: "found = (citations, ragContext)" by (cases found)
      from assms(1) req key ret Inr f
      have "r = completion w (completion_request_of w req ragContext) citations"
        and c: "calls = rcalls @ [Completion_call (completion_request_of w req ragContext)]"
        by (simp_all add: chat_handler_def)
      moreover from c assms(2) none have "creq = completion_request_of w req ragContext" by simp
      ultimately show ?thesis using that req key ret Inr f by simp
    qed
  qed
qed

text \<open>
  Claim C5 as stated fails: the schema asks no minimum length of \<open>messages\<close>. The request
  \<open>{"messages": []}\<close> passes validation, the completion provider is called with the
  system prompt alone, and its answer is returned with status 200.
\<close>

theorem chat_empty_messages_counterexample:
  "ChatRequestSchema empty_chat
     = Some \<lparr>messages = [], temperature = None, max_tokens = None, use_rag = None, top_k = None\<rparr> \<and>
   chat_handler sample_world sample_store empty_chat
     = (\<lparr>status_code = 200,
         reply = Chat_reply (ascii ''hello'') (ascii ''id-1'') (ascii ''deepseek-chat'') []\<rparr>,
        [Completion_call
           \<lparr>cr_model = ascii ''deepseek-chat'', cr_temperature = None, cr_max_tokens = None,
            cr_messages = [\<lparr>role = ascii ''system'', content = ascii ''Be brief.''\<rparr>]\<rparr>]) \<and>
   fst (chat_handler sample_world sample_store empty_chat) \<noteq> bad_request sample_world"
  by (simp add: empty_chat_parses empty_chat_answered bad_request_def)

text \<open>
  Claim C5, amended: the reply to a chat request is the bad-request reply (status 400,
  code \<open>BAD_REQUEST\<close>, with the request id) exactly when the body fails the schema: it
  is no object, \<open>messages\<close> is missing or no array, a message is not an object with a
  role of \<open>user\<close> or \<open>assistant\<close> and a non-empty string content, or an optional field is
  out of its bounds. Such a request makes no outbound call. An empty message sequence
  passes the schema.
\<close>

theorem chat_bad_request_iff:
  "(fst (chat_handler w db body) = bad_request w \<longleftrightarrow> ChatRequestSchema body = None) \<and>
   (ChatRequestSchema body = None \<longrightarrow> snd (chat_handler w db body) = [])"
proof (cases "ChatRequestSchema body")
  case None
  then show ?thesis by (simp add: chat_handler_def)
next
  case req: (Some req)
  have s: "status_code (bad_request w) = 400" by (simp add: bad_request_def)
  have "status_code (fst (chat_handler w db body)) \<noteq> 400"
  proof (cases "apiKey w")
    case None
    with req show ?thesis by (simp add: chat_handler_def missing_api_key_def)
  next
    case key: (Some key)
    obtain x rcalls where ret: "retrieval w db req = (x, rcalls)" by (cases "retrieval w db req")
    show ?thesis
    proof (cases x)
      case (Inl err)
      with req key ret show ?thesis by (simp add: chat_handler_def internal_error_def)
    next
      case (Inr found)
      obtain citations ragContext where "found = (citations, ragContext)" by (cases found)
      with req key ret Inr show ?thesis
        by (simp add: chat_handler_def status_code_completion)
    qed
  qed
  with s have "fst (chat_handler w db body) \<noteq> bad_request w" by metis
  with req show ?thesis by simp
qed

theorem chat_bad_request_iff_witness:
  "ChatRequestSchema blank_chat = None \<and>
   chat_handler sample_world sample_store blank_chat = (bad_request sample_world, [])"
proof -
  note t = chat_bad_request_iff[of sample_world sample_store blank_chat]
  from t blank_chat_rejected have "fst (chat_handler sample_world sample_store blank_chat)
      = bad_request sample_world" by blast
  moreover from t blank_chat_rejected have "snd (chat_handler sample_world sample_store blank_chat) = []"
    by blast
  ultimately have "chat_handler sample_world sample_store blank_chat = (bad_request sample_world, [])"
    by (metis prod.collapse)
  with blank_chat_rejected show ?thesis by blast
qed

lemma completion_aborted:
  "completion_fetch w creq = Fetch_aborted \<Longrightarrow> completion w creq citations = internal_error w"
  by (simp add: completion_def)

lemma completion_answered:
  assumes "completion_fetch w creq = Fetch_response res" and "res_ok res"
    and "body_json res = Some data"
    and "Option.bind
           (Option.bind (Option.bind (get_prop ''choices'' data) index0) (get_prop ''message''))
           (get_prop ''content'') = Some (JStr message)"
    and "message \<noteq> []"
  shows "completion w creq citations
         = \<lparr>status_code = 200,
            reply = Chat_reply message (randomUUID w) (cr_model creq) citations\<rparr>"
  using assms by (simp add: completion_def)

text \<open>
  Claim C6 as stated fails twice. The source has no timeout kind: when the timer aborts
  the completion call, the rejected fetch is caught by the \<open>catch\<close> block, and the reply
  is the generic one, status 500 and code \<open>INTERNAL_ERROR\<close>. And the timer is cleared as
  soon as the response headers are there: a call whose headers arrive after 300 ms and
  whose body takes 60 s, three times the timeout of 20 s, is not aborted, and its answer
  is returned with status 200.
\<close>

theorem chat_timeout_counterexample:
  "completion_exchange timeout_world hi_completion = No_answer \<and>
   chat_handler timeout_world sample_store hi_chat
     = (\<lparr>status_code = 500,
         reply = Error_reply (ascii ''INTERNAL_ERROR'') (ascii ''Internal server error'')
                   (ascii ''id-1'')\<rparr>,
        [Completion_call hi_completion]) \<and>
   ascii ''INTERNAL_ERROR'' \<noteq> ascii ''UPSTREAM_TIMEOUT'' \<and>
   completion_exchange slow_body_world hi_completion = Answered 300 60000 completion_ok \<and>
   timer_delay (timeoutMs slow_body_world) = 20000 \<and>
   chat_handler slow_body_world sample_store hi_chat
     = (\<lparr>status_code = 200,
         reply = Chat_reply (ascii ''hello'') (ascii ''id-1'') (ascii ''deepseek-chat'') []\<rparr>,
        [Completion_call hi_completion])"
  using hi_chat_times_out hi_chat_slow_body
  by (simp add: internal_error_reply_def timeout_world_def slow_body_world_def sample_world_def
      timeoutMs_def timer_delay_def ascii_def)

text \<open>
  Claim C6, amended: for every chat request that gets as far as the completion call. If
  the provider has not answered when the timer runs out (it never answers, or the
  connection fails or the response headers arrive only at or after the delay made of
  \<open>DEEPSEEK_TIMEOUT_MS\<close>, 20000 ms by default), the call is aborted and the request fails
  with the generic internal-error reply (status 500, code \<open>INTERNAL_ERROR\<close>, message
  \<open>Internal server error\<close>) and the request id. If the response headers arrive before
  the timer runs out, the call is not aborted, however long the body takes: a
  successful response with a non-empty answer is returned with status 200.
\<close>

theorem chat_timeout_internal_error:
  assumes "chat_handler w db body = (r, calls)"
    and "Completion_call creq \<in> set calls"
  shows "((completion_exchange w creq = No_answer \<or>
           (\<exists>t. completion_exchange w creq = Refused t \<and> timer_delay (timeoutMs w) \<le> t) \<or>
           (\<exists>t1 t2 res. completion_exchange w creq = Answered t1 t2 res \<and>
                         timer_delay (timeoutMs w) \<le> t1)) \<longrightarrow>
            completion_fetch w creq = Fetch_aborted \<and> r = internal_error w \<and>
            status_code r = 500 \<and>
            reply r = Error_reply (ascii ''INTERNAL_ERROR'') (ascii ''Internal server error'')
                        (randomUUID w)) \<and>
         (\<forall>t1 t2 res data message.
            completion_exchange w creq = Answered t1 t2 res \<and> t1 < timer_delay (timeoutMs w) \<and>
            res_ok res \<and> body_json res = Some data \<and>
            Option.bind
              (Option.bind (Option.bind (get_prop ''choices'' data) index0) (get_prop ''message''))
              (get_prop ''content'') = Some (JStr message) \<and>
            message \<noteq> [] \<longrightarrow>
            completion_fetch w creq = Fetch_response res \<and> status_code r = 200 \<and>
            (\<exists>citations. reply r = Chat_reply message (randomUUID w) (cr_model creq) citations))"
proof -
  from assms(1,2) obtain citations where r: "r = completion w creq citations"
    by (rule chat_handler_completion_call)
  have 1: "completion_fetch w creq = Fetch_aborted \<and> r = internal_error w \<and>
            status_code r = 500 \<and>
            reply r = Error_reply (ascii ''INTERNAL_ERROR'') (ascii ''Internal server error'')
                        (randomUUID w)"
    if "completion_exchange w creq = No_answer \<or>
           (\<exists>t. completion_exchange w creq = Refused t \<and> timer_delay (timeoutMs w) \<le> t) \<or>
           (\<exists>t1 t2 res. completion_exchange w creq = Answered t1 t2 res \<and>
                         timer_delay (timeoutMs w) \<le> t1)"
  proof -
    from that have a: "completion_fetch w creq = Fetch_aborted"
      by (auto simp: completion_fetch_def)
    then have "r = internal_error w" unfolding r by (rule completion_aborted)
    with a show ?thesis by (simp add: internal_error_def)
  qed
  have 2: "completion_fetch w creq = Fetch_response res \<and> status_code r = 200 \<and>
            (\<exists>citations. reply r = Chat_reply message (randomUUID w) (cr_model creq) citations)"
    if "completion_exchange w creq = Answered t1 t2 res \<and> t1 < timer_delay (timeoutMs w) \<and>
            res_ok res \<and> body_json res = Some data \<and>
            Option.bind
              (Option.bind (Option.bind (get_prop ''choices'' data) index0) (get_prop ''message''))
              (get_prop ''content'') = Some (JStr message) \<and>
            message \<noteq> []" for t1 t2 res data message
  proof -
    from that have f: "completion_fetch w creq = Fetch_response res"
      by (simp add: completion_fetch_def)
    from that have "res_ok res" "body_json res = Some data"
      "Option.bind
         (Option.bind (Option.bind (get_prop ''choices'' data) index0) (get_prop ''message''))
         (get_prop ''content'') = Some (JStr message)" "message \<noteq> []"
      by simp_all
    from completion_answered[OF f this, of citations]
    have "r = \<lparr>status_code = 200,
               reply = Chat_reply message (randomUUID w) (cr_model creq) citations\<rparr>"
      unfolding r .
    with f show ?thesis by simp
  qed
  from 1 2 show ?thesis by blast
qed

theorem chat_timeout_internal_error_witness:
  "chat_handler late_headers_world sample_store hi_chat
     = (internal_error_reply, [Completion_call hi_completion]) \<and>
   completion_exchange late_headers_world hi_completion = Answered 25000 25100 completion_ok \<and>
   timer_delay (timeoutMs late_headers_world) = 20000 \<and>
   completion_fetch late_headers_world hi_completion = Fetch_aborted \<and>
   internal_error_reply = internal_error late_headers_world \<and>
   status_code internal_error_reply = 500 \<and>
   reply internal_error_reply
     = Error_reply (ascii ''INTERNAL_ERROR'') (ascii ''Internal server error'')
         (randomUUID late_headers_world) \<and>
   chat_handler slow_body_world sample_store hi_chat
     = (\<lparr>status_code = 200,
         reply = Chat_reply (ascii ''hello'') (ascii ''id-1'') (ascii ''deepseek-chat'') []\<rparr>,
        [Completion_call hi_completion]) \<and>
   completion_exchange slow_body_world hi_completion = Answered 300 60000 completion_ok \<and>
   timer_delay (timeoutMs slow_body_world) = 20000 \<and>
   completion_fetch slow_body_world hi_completion = Fetch_response completion_ok"
proof -
  have called: "Completion_call hi_completion \<in> set [Completion_call hi_completion]" by simp
  have late: "completion_exchange late_headers_world hi_completion
      = Answered 25000 25100 completion_ok"
    and slow: "completion_exchange slow_body_world hi_completion
      = Answered 300 60000 completion_ok"
    and delay: "timer_delay (timeoutMs late_headers_world) = 20000"
      "timer_delay (timeoutMs slow_body_world) = 20000"
    by (simp_all add: late_headers_world_def slow_body_world_def sample_world_def timeoutMs_def
        timer_delay_def)
  have unanswered: "completion_exchange late_headers_world hi_completion = No_answer \<or>
      (\<exists>t. completion_exchange late_headers_world hi_completion = Refused t \<and>
           timer_delay (timeoutMs late_headers_world) \<le> t) \<or>
      (\<exists>t1 t2 res. completion_exchange late_headers_world hi_completion = Answered t1 t2 res \<and>
           timer_delay (timeoutMs late_headers_world) \<le> t1)"
    unfolding late delay by simp
  note a = chat_timeout_internal_error[OF hi_chat_late_headers called, THEN conjunct1, THEN mp,
      OF unanswered]
  let ?data = "JObj [(ascii ''choices'',
                    JArr [JObj [(ascii ''message'',
                            JObj [(ascii ''content'', JStr (ascii ''hello''))])]])]"
  have answered: "completion_exchange slow_body_world hi_completion
        = Answered 300 60000 completion_ok \<and>
      300 < timer_delay (timeoutMs slow_body_world) \<and> res_ok completion_ok \<and>
      body_json completion_ok = Some ?data \<and>
      Option.bind
        (Option.bind (Option.bind (get_prop ''choices'' ?data) index0) (get_prop ''message''))
        (get_prop ''content'') = Some (JStr (ascii ''hello'')) \<and>
      ascii ''hello'' \<noteq> []"
    unfolding slow delay by (simp add: completion_ok_def res_ok_def ascii_def)
  note b = chat_timeout_internal_error[OF hi_chat_slow_body called, THEN conjunct2, THEN spec,
      THEN spec, THEN spec, THEN spec, THEN spec, THEN mp, OF answered]
  from a have a1: "completion_fetch late_headers_world hi_completion = Fetch_aborted"
    and a2: "internal_error_reply = internal_error late_headers_world"
    and a3: "status_code internal_error_reply = 500"
    and a4: "reply internal_error_reply
     = Error_reply (ascii ''INTERNAL_ERROR'') (ascii ''Internal server error'')
         (randomUUID late_headers_world)"
    by simp_all
  from b have b1: "completion_fetch slow_body_world hi_completion = Fetch_response completion_ok"
    by (rule conjunct1)
  show ?thesis
    by (intro conjI hi_chat_late_headers late delay a1 a2 a3 a4 hi_chat_slow_body slow b1)
qed

text \<open>
  Claim C7 as stated fails: the source has no embedding-specific kind. \<open>embedText\<close>
  throws a plain \<open>Error\<close>, the \<open>catch\<close> block of the handler drops it, and the reply is the
  generic one (status 500, code \<open>INTERNAL_ERROR\<close>), the same for an embedding provider
  that answers 500 and for one whose answer holds no vector.
\<close>

theorem chat_embedding_failure_counterexample:
  "embedText embedding_down_world 0 (ascii ''hi'') = Inl (Js_Error (ascii ''boom'')) \<and>
   chat_handler embedding_down_world sample_store rag_chat
     = (\<lparr>status_code = 500,
         reply = Error_reply (ascii ''INTERNAL_ERROR'') (ascii ''Internal server error'')
                   (ascii ''id-1'')\<rparr>,
        [Embedding_call (ascii ''hi'')]) \<and>
   embedText embedding_garbled_world 0 (ascii ''hi'')
     = Inl (Js_Error (ascii ''Embedding upstream returned an invalid response'')) \<and>
   chat_handler embedding_garbled_world sample_store rag_chat
     = (\<lparr>status_code = 500,
         reply = Error_reply (ascii ''INTERNAL_ERROR'') (ascii ''Internal server error'')
                   (ascii ''id-1'')\<rparr>,
        [Embedding_call (ascii ''hi'')])"
  using rag_chat_embedding_down sample_embedText(2,3)
  by (simp add: internal_error_reply_def)

text \<open>
  Claim C7, amended: for every chat request with retrieval enabled and a user message,
  if embedding the latest user message fails, the whole request fails: the only outbound
  call is that embedding call, no completion is asked for, and the reply is the generic
  internal error (status 500, code \<open>INTERNAL_ERROR\<close>, message \<open>Internal server error\<close>)
  with the request id.
\<close>

theorem chat_embedding_failure_internal_error:
  assumes "ChatRequestSchema body = Some req" and "apiKey w = Some key"
    and "use_rag req = Some True" and "lastUser (messages req) = Some q"
    and "embedText w 0 q = Inl err"
  shows "chat_handler w db body = (internal_error w, [Embedding_call q]) \<and>
         reply (internal_error w)
           = Error_reply (ascii ''INTERNAL_ERROR'') (ascii ''Internal server error'') (randomUUID w)"
proof -
  from lastUser_in_messages[OF assms(4)] ChatRequestSchema_content[OF assms(1)]
  have "q \<noteq> []" by auto
  with assms show ?thesis
    by (simp add: chat_handler_def retrieval_def internal_error_def)
qed

theorem chat_embedding_failure_internal_error_witness:
  "ChatRequestSchema rag_chat
     = Some \<lparr>messages = [\<lparr>role = ascii ''user'', content = ascii ''hi''\<rparr>], temperature = None,
             max_tokens = None, use_rag = Some True, top_k = Some 2\<rparr> \<and>
   apiKey embedding_down_world = Some (ascii ''sk-1'') \<and>
   lastUser [\<lparr>role = ascii ''user'', content = ascii ''hi''\<rparr>] = Some (ascii ''hi'') \<and>
   embedText embedding_down_world 0 (ascii ''hi'') = Inl (Js_Error (ascii ''boom'')) \<and>
   chat_handler embedding_down_world sample_store rag_chat
     = (internal_error embedding_down_world, [Embedding_call (ascii ''hi'')])"
proof -
  let ?req = "\<lparr>messages = [\<lparr>role = ascii ''user'', content = ascii ''hi''\<rparr>], temperature = None,
             max_tokens = None, use_rag = Some True, top_k = Some 2\<rparr>"
  have rag: "use_rag ?req = Some True" by simp
  have q: "lastUser (messages ?req) = Some (ascii ''hi'')" using sample_lastUser by simp
  from chat_embedding_failure_internal_error[OF rag_chat_parses sample_apiKey(3) rag q
      sample_embedText(2), of sample_store]
  have "chat_handler embedding_down_world sample_store rag_chat
     = (internal_error embedding_down_world, [Embedding_call (ascii ''hi'')])"
    by (rule conjunct1)
  with rag_chat_parses sample_apiKey(3) sample_lastUser sample_embedText(2)
  show ?thesis by blast
qed

lemma js_join_empty_iff:
  "\<forall>x\<in>set xs. x \<noteq> [] \<Longrightarrow> js_join sep xs = [] \<longleftrightarrow> xs = []"
  by (induction sep xs rule: js_join.induct) auto

lemma context_block_not_empty: "context_block x \<noteq> []"
  by (simp add: context_block_def ascii_def)

lemma ragContext_empty_iff: "js_join sep (map context_block S) = [] \<longleftrightarrow> S = []"
  using js_join_empty_iff[of "map context_block S" sep] context_block_not_empty by auto

lemma completion_citations:
  "reply (completion w creq citations) = Chat_reply message requestId model cs \<Longrightarrow> cs = citations"
  by (simp add: completion_def internal_error_def upstream_error_def bad_upstream_response_def
      split: fetch_result.splits option.splits json.splits if_splits)

lemma retrieval_found:
  assumes "retrieval w db req = (Inr (citations, ragContext), rcalls)"
    and "\<And>q. lastUser (messages req) = Some q \<Longrightarrow> q \<noteq> []"
  obtains S where
    "if use_rag req = Some True
     then (\<exists>q queryEmbedding. lastUser (messages req) = Some q \<and>
             embedText w 0 q = Inr queryEmbedding \<and>
             S = retrieve w queryEmbedding (rag_chunks db) (topK w req)) \<or>
          lastUser (messages req) = None \<and> S = []
     else S = []"
    and "citations = map citation_of S"
    and "ragContext = js_join [LF, LF] (map context_block S)"
proof (cases "use_rag req = Some True")
  case False
  with assms(1) have "citations = map citation_of []"
    "ragContext = js_join [LF, LF] (map context_block [])"
    by (simp_all add: retrieval_def)
  then show ?thesis using that[of "[]"] False by simp
next
  case rag: True
  show ?thesis
  proof (cases "lastUser (messages req)")
    case None
    with assms(1) rag have "citations = map citation_of []"
      "ragContext = js_join [LF, LF] (map context_block [])"
      by (simp_all add: retrieval_def)
    then show ?thesis using that[of "[]"] rag None by simp
  next
    case q: (Some q)
    from assms(2)[OF q] have ne: "q \<noteq> []" .
    show ?thesis
    proof (cases "embedText w 0 q")
      case (Inl err)
      with assms(1) rag q ne show ?thesis by (simp add: retrieval_def)
    next
      case (Inr queryEmbedding)
      let ?S = "retrieve w queryEmbedding (rag_chunks db) (topK w req)"
      from assms(1) rag q ne Inr have "citations = map citation_of ?S"
        "ragContext = js_join [LF, LF] (map context_block ?S)"
        by (simp_all add: retrieval_def)
      then show ?thesis using that[of ?S] rag q Inr by simp
    qed
  qed
qed

text \<open>
  Claim C10: for every chat request that reaches the completion call, let \<open>S\<close> be the
  result of the retrieval step for the latest user message when retrieval is enabled
  and there is a user message, and the empty list otherwise. The citations of a
  successful reply are the rows of \<open>S\<close> in order, one citation per row; the context
  instruction holds the blocks of the same rows in the same order; and the completion
  request carries the context instruction, between the system prompt and the messages of
  the request, if and only if \<open>S\<close> is not empty.
\<close>

theorem chat_citations_match_context:
  assumes "ChatRequestSchema body = Some req"
    and "chat_handler w db body = (r, calls)"
    and "Completion_call creq \<in> set calls"
  shows "\<exists>S. (if use_rag req = Some True
              then (\<exists>q queryEmbedding. lastUser (messages req) = Some q \<and>
                      embedText w 0 q = Inr queryEmbedding \<and>
                      S = retrieve w queryEmbedding (rag_chunks db) (topK w req)) \<or>
                   lastUser (messages req) = None \<and> S = []
              else S = []) \<and>
             cr_messages creq
               = \<lparr>role = ascii ''system'',
                  content = (case SYSTEM_PROMPT w of None \<Rightarrow> DEFAULT_SYSTEM_PROMPT | Some p \<Rightarrow> p)\<rparr>
                 # (if S = [] then []
                    else [context_instruction (js_join [LF, LF] (map context_block S))])
                 @ messages req \<and>
             (\<forall>message requestId model citations.
                reply r = Chat_reply message requestId model citations \<longrightarrow>
                citations = map citation_of S)"
proof -
  from assms(2,3) obtain req' key citations ragContext rcalls where
    "ChatRequestSchema body = Some req'"
    and ret': "retrieval w db req' = (Inr (citations, ragContext), rcalls)"
    and creq': "creq = completion_request_of w req' ragContext"
    and r: "r = completion w creq citations"
    by (rule chat_handler_completion_call)
  with assms(1) have ret: "retrieval w db req = (Inr (citations, ragContext), rcalls)"
    and creq: "creq = completion_request_of w req ragContext" by simp_all
  have user: "q \<noteq> []" if "lastUser (messages req) = Some q" for q
    using lastUser_in_messages[OF that] ChatRequestSchema_content[OF assms(1)] by auto
  from ret user obtain S where S: "if use_rag req = Some True
     then (\<exists>q queryEmbedding. lastUser (messages req) = Some q \<and>
             embedText w 0 q = Inr queryEmbedding \<and>
             S = retrieve w queryEmbedding (rag_chunks db) (topK w req)) \<or>
          lastUser (messages req) = None \<and> S = []
     else S = []"
    and c: "citations = map citation_of S"
    and g: "ragContext = js_join [LF, LF] (map context_block S)"
    by (rule retrieval_found)
  from S have u: "S \<noteq> [] \<Longrightarrow> use_rag req = Some True" by (cases "use_rag req = Some True") simp_all
  have m: "cr_messages creq
               = \<lparr>role = ascii ''system'',
                  content = (case SYSTEM_PROMPT w of None \<Rightarrow> DEFAULT_SYSTEM_PROMPT | Some p \<Rightarrow> p)\<rparr>
                 # (if S = [] then []
                    else [context_instruction (js_join [LF, LF] (map context_block S))])
                 @ messages req"
  proof (cases "S = []")
    case True
    then show ?thesis by (simp add: creq completion_request_of_def g)
  next
    case False
    with u have "use_rag req = Some True" by simp
    with False show ?thesis
      by (simp add: creq completion_request_of_def g ragContext_empty_iff)
  qed
  have "\<forall>message requestId model cs.
          reply r = Chat_reply message requestId model cs \<longrightarrow> cs = map citation_of S"
    unfolding r c[symmetric] by (blast dest: completion_citations)
  with S m show ?thesis by blast
qed

theorem chat_citations_match_context_witness:
  "ChatRequestSchema rag_chat
     = Some \<lparr>messages = [\<lparr>role = ascii ''user'', content = ascii ''hi''\<rparr>], temperature = None,
             max_tokens = None, use_rag = Some True, top_k = Some 2\<rparr> \<and>
   chat_handler sample_world sample_store rag_chat
     = (\<lparr>status_code = 200,
         reply = Chat_reply (ascii ''hello'') (ascii ''id-1'') (ascii ''deepseek-chat'')
                   rag_citations\<rparr>,
        [Embedding_call (ascii ''hi''), Completion_call rag_completion]) \<and>
   (\<exists>S. S = retrieve sample_world [JNum (Fin 1)] (rag_chunks sample_store) 2 \<and>
        S \<noteq> [] \<and>
        rag_citations = map citation_of S \<and>
        cr_messages rag_completion
          = [\<lparr>role = ascii ''system'', content = ascii ''Be brief.''\<rparr>,
             context_instruction (js_join [LF, LF] (map context_block S)),
             \<lparr>role = ascii ''user'', content = ascii ''hi''\<rparr>])"
proof -
  let ?req = "\<lparr>messages = [\<lparr>role = ascii ''user'', content = ascii ''hi''\<rparr>], temperature = None,
             max_tokens = None, use_rag = Some True, top_k = Some 2\<rparr>"
  let ?r = "\<lparr>status_code = 200,
         reply = Chat_reply (ascii ''hello'') (ascii ''id-1'') (ascii ''deepseek-chat'')
                   rag_citations\<rparr>"
  have called: "Completion_call rag_completion
      \<in> set [Embedding_call (ascii ''hi''), Completion_call rag_completion]" by simp
  from chat_citations_match_context[OF rag_chat_parses rag_chat_answered called]
  obtain S where s: "if use_rag ?req = Some True
              then (\<exists>q queryEmbedding. lastUser (messages ?req) = Some q \<and>
                      embedText sample_world 0 q = Inr queryEmbedding \<and>
                      S = retrieve sample_world queryEmbedding (rag_chunks sample_store)
                            (topK sample_world ?req)) \<or>
                   lastUser (messages ?req) = None \<and> S = []
              else S = []"
    and m: "cr_messages rag_completion
               = \<lparr>role = ascii ''system'',
                  content = (case SYSTEM_PROMPT sample_world of None \<Rightarrow> DEFAULT_SYSTEM_PROMPT
                             | Some p \<Rightarrow> p)\<rparr>
                 # (if S = [] then []
                    else [context_instruction (js_join [LF, LF] (map context_block S))])
                 @ messages ?req"
    and c: "\<forall>message requestId model citations.
                reply ?r = Chat_reply message requestId model citations \<longrightarrow>
                citations = map citation_of S"
    by blast
  have three: "length (cr_messages rag_completion) = 3" by (simp add: rag_completion_def)
  have ne: "S \<noteq> []"
  proof
    assume "S = []"
    with m have "length (cr_messages rag_completion) = 2" by simp
    with three show False by simp
  qed
  from c have cites: "rag_citations = map citation_of S" by simp
  from m ne have "cr_messages rag_completion
          = [\<lparr>role = ascii ''system'', content = ascii ''Be brief.''\<rparr>,
             context_instruction (js_join [LF, LF] (map context_block S)),
             \<lparr>role = ascii ''user'', content = ascii ''hi''\<rparr>]"
    by (simp add: sample_world_def)
  moreover from s have "S = retrieve sample_world [JNum (Fin 1)] (rag_chunks sample_store) 2"
    by (simp add: sample_lastUser sample_embedText(1) topK_def)
  ultimately show ?thesis using ne cites rag_chat_parses rag_chat_answered by blast
qed

end
